theory Spec2Isabelle
  imports Main "HOL-Library.Char_ord" "HOL-Library.List_Lexorder"
begin

section \<open>The graph intermediate representation (flowchart/ir.py)\<close>

text \<open>
  The flowchart package keeps a parsed diagram as a \<open>TaskGraph\<close>: a list of
  \<open>TaskNode\<close>s, a list of \<open>TaskEdge\<close>s and free-form metadata. Python strings are
  modelled as \<open>string\<close>; string comparison is the lexicographic order on character
  codes, as in Python. Dictionaries whose values are strings are maps.
\<close>

datatype NodeType = START | END | PROCESS | DECISION | HUMAN_REVIEW

text \<open>
  \<open>TaskNode\<close>: the field \<open>id\<close> of the source is \<open>nid\<close> here (\<open>id\<close> is the identity
  function of HOL); \<open>node_type\<close> is already normalised to the enum, as
  \<open>__post_init__\<close> does.
\<close>

record TaskNode =
  nid :: string
  name :: string
  node_type :: NodeType
  model :: string
  system_prompt :: "string option"
  inputs :: "string list"
  outputs :: "string list"
  metadata :: "string \<rightharpoonup> string"

definition is_start :: "TaskNode \<Rightarrow> bool" where
  "is_start n = (node_type n = START)"

definition is_end :: "TaskNode \<Rightarrow> bool" where
  "is_end n = (node_type n = END)"

definition is_decision :: "TaskNode \<Rightarrow> bool" where
  "is_decision n = (node_type n = DECISION)"

definition is_human :: "TaskNode \<Rightarrow> bool" where
  "is_human n = (model n = ''human'' \<or> node_type n = HUMAN_REVIEW)"

record TaskEdge =
  source_id :: string
  target_id :: string
  condition :: "string option"
  label :: "string option"

datatype Severity = error | warning

record ValidationError =
  code :: string
  message :: string
  node_id :: "string option"
  severity :: Severity

record TaskGraph =
  nodes :: "TaskNode list"
  edges :: "TaskEdge list"
  graph_metadata :: "string \<rightharpoonup> string"

text \<open>
  \<open>_node_map\<close> is the dictionary \<open>{node.id: node for node in self.nodes}\<close>: a later
  node with the same id overwrites an earlier one. \<open>add_node\<close> appends to the list and
  stores into the dictionary, which gives the same dictionary again.
\<close>

definition node_map :: "TaskGraph \<Rightarrow> string \<rightharpoonup> TaskNode" where
  "node_map g = fold (\<lambda>node m. m(nid node \<mapsto> node)) (nodes g) Map.empty"

definition add_node :: "TaskGraph \<Rightarrow> TaskNode \<Rightarrow> TaskGraph" where
  "add_node g node = g\<lparr>nodes := nodes g @ [node]\<rparr>"

definition add_edge :: "TaskGraph \<Rightarrow> TaskEdge \<Rightarrow> TaskGraph" where
  "add_edge g edge = g\<lparr>edges := edges g @ [edge]\<rparr>"

definition get_node :: "TaskGraph \<Rightarrow> string \<Rightarrow> TaskNode option" where
  "get_node g i = node_map g i"

definition get_start_node :: "TaskGraph \<Rightarrow> TaskNode option" where
  "get_start_node g = (case filter is_start (nodes g) of [] \<Rightarrow> None | node # _ \<Rightarrow> Some node)"

definition get_end_nodes :: "TaskGraph \<Rightarrow> TaskNode list" where
  "get_end_nodes g = filter is_end (nodes g)"

definition get_outgoing_edges :: "TaskGraph \<Rightarrow> string \<Rightarrow> TaskEdge list" where
  "get_outgoing_edges g i = filter (\<lambda>edge. source_id edge = i) (edges g)"

definition get_incoming_edges :: "TaskGraph \<Rightarrow> string \<Rightarrow> TaskEdge list" where
  "get_incoming_edges g i = filter (\<lambda>edge. target_id edge = i) (edges g)"

text \<open>
  \<open>[self._node_map[sid] for sid in successor_ids if sid in self._node_map]\<close>: the
  dictionary is indexed only under the membership test.
\<close>

definition get_successors :: "TaskGraph \<Rightarrow> string \<Rightarrow> TaskNode list" where
  "get_successors g i =
     (let successor_ids = map target_id (get_outgoing_edges g i)
      in map (\<lambda>sid. the (node_map g sid)) (filter (\<lambda>sid. node_map g sid \<noteq> None) successor_ids))"

definition get_predecessors :: "TaskGraph \<Rightarrow> string \<Rightarrow> TaskNode list" where
  "get_predecessors g i =
     (let predecessor_ids = map source_id (get_incoming_edges g i)
      in map (\<lambda>pid. the (node_map g pid)) (filter (\<lambda>pid. node_map g pid \<noteq> None) predecessor_ids))"

definition get_dependencies :: "TaskGraph \<Rightarrow> string \<Rightarrow> string list" where
  "get_dependencies g i = map source_id (get_incoming_edges g i)"

text \<open>
  \<open>edge.condition or edge.label or "default"\<close>: Python's \<open>or\<close> skips \<open>None\<close> and the
  empty string.
\<close>

definition truthy :: "string option \<Rightarrow> bool" where
  "truthy s = (case s of None \<Rightarrow> False | Some t \<Rightarrow> t \<noteq> [])"

definition branch_condition :: "TaskEdge \<Rightarrow> string" where
  "branch_condition edge =
     (if truthy (condition edge) then the (condition edge)
      else if truthy (label edge) then the (label edge)
      else ''default'')"

definition get_decision_branches :: "TaskGraph \<Rightarrow> string \<Rightarrow> (string \<rightharpoonup> TaskNode list)" where
  "get_decision_branches g decision_node_id =
     fold (\<lambda>edge branches.
             case get_node g (target_id edge) of
               None \<Rightarrow> branches
             | Some target \<Rightarrow>
                 (let branches' = (if branches (branch_condition edge) = None
                                   then branches(branch_condition edge \<mapsto> []) else branches)
                  in branches'(branch_condition edge \<mapsto> the (branches' (branch_condition edge)) @ [target])))
          (get_outgoing_edges g decision_node_id) Map.empty"

text \<open>The ids of the graph's nodes: the key set of \<open>_node_map\<close>.\<close>

definition node_ids :: "TaskGraph \<Rightarrow> string set" where
  "node_ids g = nid ` set (nodes g)"

section \<open>Strings\<close>

text \<open>
  \<open>sep.join(xs)\<close>, \<open>str(n)\<close> for a natural number, and the character tests of
  \<open>str.strip\<close>, \<open>str.isdigit\<close> and \<open>str.lower\<close>, on ASCII characters.
  \<open>sq\<close> is the single quote that the f-strings put around a name.
\<close>

fun join :: "string \<Rightarrow> string list \<Rightarrow> string" where
  "join sep [] = []"
| "join sep [x] = x"
| "join sep (x # y # ys) = x @ sep @ join sep (y # ys)"

definition sq :: string where
  "sq = [CHR 0x27]"

definition digit_char :: "nat \<Rightarrow> char" where
  "digit_char d = ''0123456789'' ! d"

fun str_of_nat :: "nat \<Rightarrow> string" where
  "str_of_nat n =
     (if n < 10 then [digit_char n] else str_of_nat (n div 10) @ [digit_char (n mod 10)])"

definition is_space :: "char \<Rightarrow> bool" where
  "is_space c = (c \<in> set [CHR 0x20, CHR 0x09, CHR 0x0A, CHR 0x0B, CHR 0x0C, CHR 0x0D,
                           CHR 0x1C, CHR 0x1D, CHR 0x1E, CHR 0x1F])"

definition is_digit :: "char \<Rightarrow> bool" where
  "is_digit c = (c \<in> set ''0123456789'')"

text \<open>\<open>s.strip() == ""\<close>: every character of \<open>s\<close> is white space.\<close>

definition strip_is_empty :: "string \<Rightarrow> bool" where
  "strip_is_empty s = list_all is_space s"

text \<open>\<open>s.isdigit()\<close>: \<open>s\<close> is not empty and all its characters are digits.\<close>

definition isdigit :: "string \<Rightarrow> bool" where
  "isdigit s = (s \<noteq> [] \<and> list_all is_digit s)"

definition startswith :: "string \<Rightarrow> string \<Rightarrow> bool" where
  "startswith s p = (take (length p) s = p)"

section \<open>The validation result (flowchart/validator.py)\<close>

record ValidationResult =
  valid :: bool
  errors :: "ValidationError list"
  warnings :: "ValidationError list"

text \<open>\<open>ValidationResult()\<close>: the defaults of the dataclass.\<close>

definition new_result :: ValidationResult where
  "new_result = \<lparr>valid = True, errors = [], warnings = []\<rparr>"

definition add_error :: "ValidationResult \<Rightarrow> string \<Rightarrow> string \<Rightarrow> string option \<Rightarrow> ValidationResult" where
  "add_error r c m n =
     r\<lparr>errors := errors r @ [\<lparr>code = c, message = m, node_id = n, severity = error\<rparr>],
       valid := False\<rparr>"

definition add_warning :: "ValidationResult \<Rightarrow> string \<Rightarrow> string \<Rightarrow> string option \<Rightarrow> ValidationResult" where
  "add_warning r c m n =
     r\<lparr>warnings := warnings r @ [\<lparr>code = c, message = m, node_id = n, severity = warning\<rparr>]\<rparr>"

section \<open>The validator's checks\<close>

text \<open>
  Every check receives the graph and the result object and returns nothing: what it
  does is what it leaves in the two objects. A check is therefore a function from the
  pair (graph, result) to the pair after the call.
\<close>

type_synonym vstate = "TaskGraph \<times> ValidationResult"

fun check_empty_graph :: "vstate \<Rightarrow> vstate" where
  "check_empty_graph (graph, result) =
     (if nodes graph = []
      then (graph, add_error result ''EMPTY_GRAPH'' ''The flowchart contains no nodes'' None)
      else (graph, result))"

fun check_start_nodes :: "vstate \<Rightarrow> vstate" where
  "check_start_nodes (graph, result) =
     (let start_nodes = filter (\<lambda>n. node_type n = START) (nodes graph) in
      if length start_nodes = 0 then
        (let nodes_with_incoming = set (map target_id (edges graph));
             potential_starts = filter (\<lambda>n. nid n \<notin> nodes_with_incoming) (nodes graph)
         in case potential_starts of
              p # _ \<Rightarrow>
                (graph, add_warning result ''NO_EXPLICIT_START''
                   (''No explicit start node found. '' @ ''Node '' @ sq @ name p @ sq
                      @ '' has no incoming edges and '' @ ''will be used as the start node.'')
                   (Some (nid p)))
            | [] \<Rightarrow>
                (graph, add_error result ''NO_START_NODE''
                   ''The flowchart must have a start node'' None))
      else if length start_nodes > 1 then
        (let node_names = join '', '' (map (\<lambda>n. sq @ name n @ sq @ '' ('' @ nid n @ '')'') start_nodes)
         in (graph, add_error result ''MULTIPLE_START_NODES''
               (''The flowchart has multiple start nodes: '' @ node_names @ ''. Only one is allowed.'')
               None))
      else (graph, result))"

fun check_end_nodes :: "vstate \<Rightarrow> vstate" where
  "check_end_nodes (graph, result) =
     (let end_nodes = filter (\<lambda>n. node_type n = END) (nodes graph) in
      if length end_nodes = 0 then
        (let nodes_with_outgoing = set (map source_id (edges graph));
             potential_ends = filter (\<lambda>n. nid n \<notin> nodes_with_outgoing) (nodes graph);
             potential_ends = filter (\<lambda>n. node_type n \<noteq> START) potential_ends
         in case potential_ends of
              p # _ \<Rightarrow>
                (graph, add_warning result ''NO_EXPLICIT_END''
                   (''No explicit end node found. '' @ ''Node '' @ sq @ name p @ sq
                      @ '' has no outgoing edges and '' @ ''will be used as an end node.'')
                   (Some (nid p)))
            | [] \<Rightarrow>
                (graph, add_error result ''NO_END_NODE''
                   ''The flowchart must have at least one end node'' None))
      else (graph, result))"

definition check_edge :: "string set \<Rightarrow> TaskEdge \<Rightarrow> ValidationResult \<Rightarrow> ValidationResult" where
  "check_edge ids edge result =
     (let result = (if source_id edge \<notin> ids
                    then add_error result ''INVALID_EDGE_SOURCE''
                           (''Edge references non-existent source node: '' @ source_id edge) None
                    else result)
      in if target_id edge \<notin> ids
         then add_error result ''INVALID_EDGE_TARGET''
                (''Edge references non-existent target node: '' @ target_id edge) None
         else result)"

fun check_edge_references :: "vstate \<Rightarrow> vstate" where
  "check_edge_references (graph, result) =
     (let ids = set (map nid (nodes graph))
      in (graph, fold (check_edge ids) (edges graph) result))"

definition check_decision_node :: "TaskGraph \<Rightarrow> TaskNode \<Rightarrow> ValidationResult \<Rightarrow> ValidationResult" where
  "check_decision_node graph node result =
     (if node_type node \<noteq> DECISION then result
      else
        (let outgoing = get_outgoing_edges graph (nid node) in
         if length outgoing < 2 then
           add_error result ''DECISION_INSUFFICIENT_BRANCHES''
             (''Decision node '' @ sq @ name node @ sq @ '' ('' @ nid node @ '') must have at least ''
                @ ''2 outgoing edges, but has '' @ str_of_nat (length outgoing))
             (Some (nid node))
         else if length outgoing = 2 then
           (let conditions = filter truthy (map condition outgoing) in
            if conditions = [] then
              add_warning result ''DECISION_NO_CONDITIONS''
                (''Decision node '' @ sq @ name node @ sq @ '' ('' @ nid node @ '') has no ''
                   @ ''conditions on its edges. Consider adding labels like ''
                   @ sq @ ''Yes'/'No' or 'Validated'/'Rejected'.'')
                (Some (nid node))
            else result)
         else result))"

fun check_decision_nodes :: "vstate \<Rightarrow> vstate" where
  "check_decision_nodes (graph, result) =
     (graph, fold (check_decision_node graph) (nodes graph) result)"

definition check_orphan_node :: "TaskGraph \<Rightarrow> string set \<Rightarrow> TaskNode \<Rightarrow> ValidationResult \<Rightarrow> ValidationResult" where
  "check_orphan_node graph nodes_with_edges node result =
     (if nid node \<notin> nodes_with_edges then
        (if node_type node = START then
           (let outgoing = get_outgoing_edges graph (nid node) in
            if outgoing = [] then
              add_error result ''START_NO_OUTGOING''
                (''Start node '' @ sq @ name node @ sq @ '' ('' @ nid node @ '') has no '' @ ''outgoing edges'')
                (Some (nid node))
            else result)
         else if node_type node = END then
           (let incoming = get_incoming_edges graph (nid node) in
            if incoming = [] then
              add_error result ''END_NO_INCOMING''
                (''End node '' @ sq @ name node @ sq @ '' ('' @ nid node @ '') has no '' @ ''incoming edges'')
                (Some (nid node))
            else result)
         else
           add_error result ''ORPHAN_NODE''
             (''Node '' @ sq @ name node @ sq @ '' ('' @ nid node @ '') is not connected to '' @ ''any other node'')
             (Some (nid node)))
      else result)"

fun check_orphan_nodes :: "vstate \<Rightarrow> vstate" where
  "check_orphan_nodes (graph, result) =
     (let nodes_with_edges =
            fold (\<lambda>edge s. insert (target_id edge) (insert (source_id edge) s)) (edges graph) {}
      in (graph, fold (check_orphan_node graph nodes_with_edges) (nodes graph) result))"

section \<open>Properties of the graph queries\<close>

lemma fold_upd_None:
  "fold (\<lambda>node m. m(nid node \<mapsto> node)) ns m0 k = None \<longleftrightarrow> m0 k = None \<and> k \<notin> nid ` set ns"
  by (induction ns arbitrary: m0) auto

lemma fold_upd_Some:
  "fold (\<lambda>node m. m(nid node \<mapsto> node)) ns m0 k = Some n \<Longrightarrow>
     (n \<in> set ns \<and> nid n = k) \<or> m0 k = Some n"
proof (induction ns arbitrary: m0)
  case Nil
  then show ?case by simp
next
  case (Cons a ns)
  from Cons.prems have "fold (\<lambda>node m. m(nid node \<mapsto> node)) ns (m0(nid a \<mapsto> a)) k = Some n"
    by (simp only: fold_simps o_apply)
  from Cons.IH [OF this] show ?case
    by (auto split: if_splits)
qed

lemma dom_node_map: "dom (node_map g) = node_ids g"
  unfolding node_map_def node_ids_def dom_def
  using fold_upd_None [of "nodes g" Map.empty] by auto

lemma node_map_None: "node_map g k = None \<longleftrightarrow> k \<notin> node_ids g"
  unfolding node_map_def node_ids_def
  using fold_upd_None [of "nodes g" Map.empty] by simp

lemma node_map_SomeD: "node_map g k = Some n \<Longrightarrow> n \<in> set (nodes g) \<and> nid n = k"
  unfolding node_map_def using fold_upd_Some [of "nodes g" Map.empty k n] by simp

lemma node_map_the:
  assumes "k \<in> node_ids g"
  shows "the (node_map g k) \<in> set (nodes g)" and "nid (the (node_map g k)) = k"
proof -
  from assms obtain n where "node_map g k = Some n"
    using dom_node_map [of g] by auto
  then show "the (node_map g k) \<in> set (nodes g)" and "nid (the (node_map g k)) = k"
    using node_map_SomeD by auto
qed

lemma get_successors_subset: "set (get_successors g i) \<subseteq> set (nodes g)"
  by (auto simp: get_successors_def node_map_None node_map_the)

lemma get_predecessors_subset: "set (get_predecessors g i) \<subseteq> set (nodes g)"
  by (auto simp: get_predecessors_def node_map_None node_map_the)

lemma nid_get_successors:
  "map nid (get_successors g i) =
     filter (\<lambda>sid. sid \<in> node_ids g) (map target_id (get_outgoing_edges g i))"
  unfolding get_successors_def Let_def node_map_None not_not map_map
  by (rule map_idI) (simp add: node_map_the)

lemma nid_get_predecessors:
  "map nid (get_predecessors g i) =
     filter (\<lambda>pid. pid \<in> node_ids g) (map source_id (get_incoming_edges g i))"
  unfolding get_predecessors_def Let_def node_map_None not_not map_map
  by (rule map_idI) (simp add: node_map_the)

lemma get_decision_branches_fold:
  "fold (\<lambda>edge branches.
             case get_node g (target_id edge) of
               None \<Rightarrow> branches
             | Some target \<Rightarrow>
                 (let branches' = (if branches (branch_condition edge) = None
                                   then branches(branch_condition edge \<mapsto> []) else branches)
                  in branches'(branch_condition edge \<mapsto> the (branches' (branch_condition edge)) @ [target])))
          es b0 c =
     (let ts = List.map_filter (node_map g) (map target_id (filter (\<lambda>e. branch_condition e = c) es))
      in if ts = [] then b0 c else Some ((case b0 c of None \<Rightarrow> [] | Some old \<Rightarrow> old) @ ts))"
proof (induction es arbitrary: b0)
  case Nil
  then show ?case by (simp add: map_filter_simps)
next
  case (Cons e es)
  show ?case
    by (simp only: fold_simps o_apply Cons.IH)
       (auto simp: get_node_def map_filter_simps Let_def dom_def split: option.splits)
qed

lemma get_decision_branches_eq:
  "get_decision_branches g d c =
     (let ts = List.map_filter (node_map g)
                 (map target_id (filter (\<lambda>e. branch_condition e = c) (get_outgoing_edges g d)))
      in if ts = [] then None else Some ts)"
  unfolding get_decision_branches_def get_decision_branches_fold by (simp add: Let_def)

lemma set_map_filter_node_map: "set (List.map_filter (node_map g) ks) \<subseteq> set (nodes g)"
  by (auto simp: map_filter_def dest: node_map_SomeD)

lemma get_decision_branches_subset:
  "\<Union> (set ` ran (get_decision_branches g d)) \<subseteq> set (nodes g)"
proof
  fix n assume "n \<in> \<Union> (set ` ran (get_decision_branches g d))"
  then obtain c ts where c: "get_decision_branches g d c = Some ts" and n: "n \<in> set ts"
    by (auto simp: ran_def)
  from c have "ts = List.map_filter (node_map g)
                 (map target_id (filter (\<lambda>e. branch_condition e = c) (get_outgoing_edges g d)))"
    by (simp add: get_decision_branches_eq Let_def split: if_splits)
  with n show "n \<in> set (nodes g)"
    using set_map_filter_node_map by blast
qed

section \<open>Claim C10: the queries tolerate dangling edges\<close>

text \<open>
  C10. On every graph, also one whose edges name ids that no node has,
  \<open>get_successors\<close> and \<open>get_predecessors\<close> return a value (the dictionary is never
  indexed at a missing key), the nodes they return are nodes of the graph, and their ids
  are exactly the edge endpoints that are ids of the graph, in edge order: the absent
  endpoints are skipped. \<open>get_decision_branches\<close> files under each condition label the
  nodes of the edge targets that exist, and nothing for the targets that do not: a label
  with no existing target is no key of the result.
\<close>

theorem C10_queries_skip_dangling_endpoints:
  "set (get_successors g i) \<subseteq> set (nodes g)
   \<and> map nid (get_successors g i) =
       filter (\<lambda>sid. sid \<in> node_ids g) (map target_id (get_outgoing_edges g i))
   \<and> set (get_predecessors g i) \<subseteq> set (nodes g)
   \<and> map nid (get_predecessors g i) =
       filter (\<lambda>pid. pid \<in> node_ids g) (map source_id (get_incoming_edges g i))
   \<and> \<Union> (set ` ran (get_decision_branches g d)) \<subseteq> set (nodes g)
   \<and> get_decision_branches g d c =
       (let ts = List.map_filter (node_map g)
                   (map target_id (filter (\<lambda>e. branch_condition e = c) (get_outgoing_edges g d)))
        in if ts = [] then None else Some ts)"
  using get_successors_subset nid_get_successors get_predecessors_subset nid_get_predecessors
    get_decision_branches_subset get_decision_branches_eq
  by blast

section \<open>Connectivity and cycle checks\<close>

text \<open>
  \<open>_check_connectivity\<close>: the breadth-first traversal from the start node. \<open>bfs\<close> is
  the \<open>while queue\<close> loop, on the queue and the visited set.
\<close>

function bfs :: "TaskGraph \<Rightarrow> string list \<Rightarrow> string set \<Rightarrow> string set" where
  "bfs graph [] visited = visited"
| "bfs graph (current # queue) visited =
     (if current \<in> visited then bfs graph queue visited
      else
        (let visited = insert current visited
         in bfs graph
              (queue @ map nid (filter (\<lambda>successor. nid successor \<notin> visited)
                                  (get_successors graph current)))
              visited))"
  by pat_completeness auto
termination bfs
proof (relation "(\<lambda>(graph, queue, visited). card ((node_ids graph \<union> set queue) - visited))
                  <*mlex*> measure (\<lambda>(graph, queue, visited). length queue)")
  show "wf ((\<lambda>(graph, queue, visited). card ((node_ids graph \<union> set queue) - visited))
                  <*mlex*> measure (\<lambda>(graph, queue, visited). length queue))"
    by (simp add: wf_mlex)
next
  fix graph :: TaskGraph and current :: string and queue :: "string list" and visited :: "string set"
  assume "current \<in> visited"
  then have "(node_ids graph \<union> set (current # queue)) - visited = (node_ids graph \<union> set queue) - visited"
    by auto
  then show "((graph, queue, visited), (graph, current # queue, visited))
       \<in> (\<lambda>(graph, queue, visited). card ((node_ids graph \<union> set queue) - visited))
                  <*mlex*> measure (\<lambda>(graph, queue, visited). length queue)"
    by (simp add: mlex_less mlex_leq)
next
  fix graph :: TaskGraph and current :: string and queue :: "string list" and visited x :: "string set"
  assume nv: "current \<notin> visited" and x: "x = insert current visited"
  let ?new = "map nid (filter (\<lambda>successor. nid successor \<notin> x) (get_successors graph current))"
  have "set ?new \<subseteq> node_ids graph"
    using get_successors_subset [of graph current] by (auto simp: node_ids_def)
  then have "(node_ids graph \<union> set (queue @ ?new)) - x
             \<subset> (node_ids graph \<union> set (current # queue)) - visited"
    using nv x by auto
  then have "card ((node_ids graph \<union> set (queue @ ?new)) - x)
             < card ((node_ids graph \<union> set (current # queue)) - visited)"
    by (intro psubset_card_mono) (auto simp: node_ids_def)
  then show "((graph, queue @ ?new, x), (graph, current # queue, visited))
       \<in> (\<lambda>(graph, queue, visited). card ((node_ids graph \<union> set queue) - visited))
                  <*mlex*> measure (\<lambda>(graph, queue, visited). length queue)"
    by (simp add: mlex_less)
qed

fun check_connectivity :: "vstate \<Rightarrow> vstate" where
  "check_connectivity (graph, result) =
     (case get_start_node graph of
        None \<Rightarrow> (graph, result)
      | Some start_node \<Rightarrow>
          (let visited = bfs graph [nid start_node] {};
               unreachable = filter (\<lambda>n. nid n \<notin> visited) (nodes graph)
           in if unreachable \<noteq> [] then
                (let names = join '', '' (map (\<lambda>n. sq @ name n @ sq) (take 3 unreachable));
                     names = (if length unreachable > 3
                              then names @ '' and '' @ str_of_nat (length unreachable - 3) @ '' more''
                              else names)
                 in (graph, add_warning result ''UNREACHABLE_NODES''
                       (''Some nodes are not reachable from the start node: '' @ names) None))
              else (graph, result)))"

text \<open>
  \<open>_check_cycles\<close>: the depth-first search with three colours. \<open>colors\<close> and \<open>parent\<close>
  are the two dictionaries of the check, keyed by the node ids; both are shared by all
  calls of \<open>dfs\<close>. A key of \<open>parent\<close> whose value is \<open>None\<close> is a key the map does
  not have: \<open>parent.get(current, "")\<close> is falsy in both cases.

  \<open>reconstruct_cycle\<close> is the \<open>while current != successor.id\<close> loop that walks the
  parent links. Nothing in the loop itself bounds it, so it is a partial function;
  lemma \<open>dfs_total\<close> below shows that it returns on every state that the search reaches.
  \<open>dfs\<close> returns the cycle (or \<open>None\<close>) and the two dictionaries after the call;
  \<open>dfs_loop\<close> is its \<open>for successor in graph.get_successors(node_id)\<close> loop on the
  successors that are left.
\<close>

datatype Color = WHITE | GRAY | BLACK

record dfs_state =
  colors :: "string \<Rightarrow> Color"
  parent :: "string \<rightharpoonup> string"

partial_function (option) reconstruct_cycle ::
  "(string \<rightharpoonup> string) \<Rightarrow> string \<Rightarrow> string \<Rightarrow> string list \<Rightarrow> string list option" where
  "reconstruct_cycle par target current cycle =
     (if current \<noteq> target then
        (case par current of
           None \<Rightarrow> Some (cycle @ [current])
         | Some p \<Rightarrow> if p = [] then Some (cycle @ [current])
                     else reconstruct_cycle par target p (cycle @ [current]))
      else Some cycle)"

declare reconstruct_cycle.simps [code]

function dfs :: "TaskGraph \<Rightarrow> string \<Rightarrow> dfs_state \<Rightarrow> (string list option \<times> dfs_state) option"
  and dfs_loop :: "TaskGraph \<Rightarrow> string \<Rightarrow> TaskNode list \<Rightarrow> dfs_state
                     \<Rightarrow> (string list option \<times> dfs_state) option"
where
  "dfs graph node_id' st =
     (case dfs_loop graph node_id' (get_successors graph node_id')
             (st\<lparr>colors := (colors st)(node_id' := GRAY)\<rparr>) of
        None \<Rightarrow> None
      | Some (Some cycle, st') \<Rightarrow> Some (Some cycle, st')
      | Some (None, st') \<Rightarrow> Some (None, st'\<lparr>colors := (colors st')(node_id' := BLACK)\<rparr>))"
| "dfs_loop graph node_id' [] st = Some (None, st)"
| "dfs_loop graph node_id' (successor # rest) st =
     (if colors st (nid successor) = GRAY then
        (case reconstruct_cycle (parent st) (nid successor) node_id' [nid successor] of
           None \<Rightarrow> None
         | Some cycle \<Rightarrow> Some (Some (rev (cycle @ [nid successor])), st))
      else if colors st (nid successor) = WHITE then
        (case dfs graph (nid successor) (st\<lparr>parent := (parent st)(nid successor \<mapsto> node_id')\<rparr>) of
           None \<Rightarrow> None
         | Some (Some cycle, st') \<Rightarrow>
             if cycle \<noteq> [] then Some (Some cycle, st') else dfs_loop graph node_id' rest st'
         | Some (None, st') \<Rightarrow> dfs_loop graph node_id' rest st')
      else dfs_loop graph node_id' rest st)"
  by pat_completeness auto


lemma dfs_white_mono_p:
  "dfs_dfs_loop_dom (Inl (graph, v, st)) \<Longrightarrow> dfs graph v st = Some (r, st') \<Longrightarrow>
     colors st' x = WHITE \<Longrightarrow> colors st x = WHITE"
  "dfs_dfs_loop_dom (Inr (graph, v, succs, st)) \<Longrightarrow> dfs_loop graph v succs st = Some (r, st') \<Longrightarrow>
     colors st' x = WHITE \<Longrightarrow> colors st x = WHITE"
proof (induct arbitrary: r st' x and r st' x rule: dfs_dfs_loop.pinduct)
  case (1 graph v st)
  let ?sg = "st\<lparr>colors := (colors st)(v := GRAY)\<rparr>"
  from "1.prems"(1) "1.hyps"(1) obtain r1 st1 where
    l: "dfs_loop graph v (get_successors graph v) ?sg = Some (r1, st1)"
    and st': "st' = st1 \<or> st' = st1\<lparr>colors := (colors st1)(v := BLACK)\<rparr>"
    by (auto simp: dfs.psimps split: option.splits prod.splits)
  from st' "1.prems"(2) have "colors st1 x = WHITE"
    by (auto split: if_splits)
  with l have "colors ?sg x = WHITE"
    by (rule "1.hyps"(2))
  then show ?case
    by (simp split: if_splits)
next
  case (2 graph v st)
  then show ?case by (simp add: dfs_loop.psimps)
next
  case (3 graph v successor rest st)
  note dom = "3.hyps"(1)
  show ?case
  proof (cases "colors st (nid successor) = GRAY")
    case True
    with "3.prems"(1) dom have "st' = st"
      by (simp add: dfs_loop.psimps split: option.splits)
    with "3.prems"(2) show ?thesis by simp
  next
    case ng: False
    show ?thesis
    proof (cases "colors st (nid successor) = WHITE")
      case False
      with ng "3.prems"(1) dom have "dfs_loop graph v rest st = Some (r, st')"
        by (simp add: dfs_loop.psimps)
      then show ?thesis
        using "3.prems"(2) by (rule "3.hyps"(5) [OF ng False])
    next
      case w: True
      let ?st0 = "st\<lparr>parent := (parent st)(nid successor \<mapsto> v)\<rparr>"
      from "3.prems"(1) dom ng w obtain r1 st1 where
        d: "dfs graph (nid successor) ?st0 = Some (r1, st1)"
        by (simp add: dfs_loop.psimps split: option.splits) fastforce
      have m1: "colors st y = WHITE" if "colors st1 y = WHITE" for y
      proof -
        from d that have "colors ?st0 y = WHITE"
          by (rule "3.hyps"(2) [OF ng w])
        then show ?thesis by simp
      qed
      show ?thesis
      proof (cases "\<exists>c. r1 = Some c \<and> c \<noteq> []")
        case True
        with "3.prems"(1) dom ng w d have "st' = st1"
          by (auto simp: dfs_loop.psimps)
        with "3.prems"(2) m1 show ?thesis by simp
      next
        case False
        then have r1: "r1 = None \<or> r1 = Some []" by (cases r1) auto
        with "3.prems"(1) dom ng w d
        have l: "dfs_loop graph v rest st1 = Some (r, st')"
          by (auto simp: dfs_loop.psimps)
        from r1 have "colors st1 x = WHITE"
        proof
          assume "r1 = None"
          with l "3.prems"(2) show ?thesis
            by (intro "3.hyps"(3) [OF ng w d, of r1 st1 r st' x]) simp_all
        next
          assume "r1 = Some []"
          with l "3.prems"(2) show ?thesis
            by (intro "3.hyps"(4) [OF ng w d, of r1 st1 "[]" r st' x]) simp_all
        qed
        then show ?thesis by (rule m1)
      qed
    qed
  qed
qed

definition whites :: "string set \<Rightarrow> dfs_state \<Rightarrow> string set" where
  "whites U st = {y \<in> U. colors st y = WHITE}"

definition dfs_m1 :: "TaskGraph \<times> string \<times> dfs_state + TaskGraph \<times> string \<times> TaskNode list \<times> dfs_state \<Rightarrow> nat" where
  "dfs_m1 x = (case x of
            Inl (graph, v, st) \<Rightarrow> 2 * card (whites (node_ids graph - {v}) st) + 1
          | Inr (graph, v, succs, st) \<Rightarrow>
              2 * card (whites (node_ids graph \<union> nid ` set succs) st))"

definition dfs_m2 :: "TaskGraph \<times> string \<times> dfs_state + TaskGraph \<times> string \<times> TaskNode list \<times> dfs_state \<Rightarrow> nat" where
  "dfs_m2 x = (case x of Inl _ \<Rightarrow> 0 | Inr (graph, v, succs, st) \<Rightarrow> length succs)"

lemma finite_node_ids: "finite (node_ids graph)"
  by (simp add: node_ids_def)

lemma finite_whites: "finite U \<Longrightarrow> finite (whites U st)"
  by (simp add: whites_def)

lemma dfs_term1:
  "(Inr (graph, v, get_successors graph v, st\<lparr>colors := (colors st)(v := GRAY)\<rparr>), Inl (graph, v, st))
     \<in> dfs_m1 <*mlex*> measure dfs_m2"
proof -
  have "nid ` set (get_successors graph v) \<subseteq> node_ids graph"
    using get_successors_subset [of graph v] by (auto simp: node_ids_def)
  then have "whites (node_ids graph \<union> nid ` set (get_successors graph v))
                (st\<lparr>colors := (colors st)(v := GRAY)\<rparr>)
             = whites (node_ids graph - {v}) st"
    by (auto simp: whites_def)
  then have "dfs_m1 (Inr (graph, v, get_successors graph v, st\<lparr>colors := (colors st)(v := GRAY)\<rparr>))
             < dfs_m1 (Inl (graph, v, st))"
    by (simp only: dfs_m1_def sum.case prod.case)
  then show ?thesis by (rule mlex_less)
qed

lemma dfs_term2:
  assumes "colors st (nid s) = WHITE"
  shows "(Inl (graph, nid s, st\<lparr>parent := p\<rparr>), Inr (graph, v, s # rest, st))
     \<in> dfs_m1 <*mlex*> measure dfs_m2"
proof -
  let ?A = "whites (node_ids graph - {nid s}) (st\<lparr>parent := p\<rparr>)"
  let ?B = "whites (node_ids graph \<union> nid ` set (s # rest)) st"
  have "?A \<subset> ?B" using assms by (auto simp: whites_def)
  moreover have "finite ?B" by (simp add: finite_node_ids finite_whites)
  ultimately have "card ?A < card ?B" by (rule psubset_card_mono [rotated])
  then have "dfs_m1 (Inl (graph, nid s, st\<lparr>parent := p\<rparr>)) < dfs_m1 (Inr (graph, v, s # rest, st))"
    by (simp only: dfs_m1_def sum.case prod.case)
  then show ?thesis by (rule mlex_less)
qed

lemma dfs_term3:
  assumes "\<And>y. colors st' y = WHITE \<Longrightarrow> colors st0 y = WHITE" and "colors st0 = colors st"
  shows "(Inr (graph, v, rest, st'), Inr (graph, v, s # rest, st))
     \<in> dfs_m1 <*mlex*> measure dfs_m2"
proof -
  let ?A = "whites (node_ids graph \<union> nid ` set rest) st'"
  let ?B = "whites (node_ids graph \<union> nid ` set (s # rest)) st"
  have "?A \<subseteq> ?B" using assms by (auto simp: whites_def)
  moreover have "finite ?B" by (simp add: finite_node_ids finite_whites)
  ultimately have "card ?A \<le> card ?B" by (rule card_mono [rotated])
  then have "dfs_m1 (Inr (graph, v, rest, st')) \<le> dfs_m1 (Inr (graph, v, s # rest, st))"
    by (simp only: dfs_m1_def sum.case prod.case)
  moreover have "(Inr (graph, v, rest, st'), Inr (graph, v, s # rest, st)) \<in> measure dfs_m2"
    by (simp add: dfs_m2_def)
  ultimately show ?thesis by (rule mlex_leq)
qed

termination dfs
proof (relation "dfs_m1 <*mlex*> measure dfs_m2")
  show "wf (dfs_m1 <*mlex*> measure dfs_m2)"
    by (simp add: wf_mlex)
next
  fix graph :: TaskGraph and v :: string and st :: dfs_state
  show "(Inr (graph, v, get_successors graph v, st\<lparr>colors := (colors st)(v := GRAY)\<rparr>),
         Inl (graph, v, st)) \<in> dfs_m1 <*mlex*> measure dfs_m2"
    by (rule dfs_term1)
next
  fix graph :: TaskGraph and v :: string and successor :: TaskNode and rest and st :: dfs_state
  assume "colors st (nid successor) = WHITE"
  then show "(Inl (graph, nid successor, st\<lparr>parent := (parent st)(nid successor \<mapsto> v)\<rparr>),
         Inr (graph, v, successor # rest, st)) \<in> dfs_m1 <*mlex*> measure dfs_m2"
    by (rule dfs_term2)
next
  fix graph :: TaskGraph and v :: string and successor :: TaskNode and rest and st :: dfs_state and x2 x y
  assume d: "dfs graph (nid successor) (st\<lparr>parent := (parent st)(nid successor \<mapsto> v)\<rparr>) = Some x2"
    and x2: "(x, y) = x2"
    and dom: "dfs_dfs_loop_dom (Inl (graph, nid successor, st\<lparr>parent := (parent st)(nid successor \<mapsto> v)\<rparr>))"
  from d x2 have d': "dfs graph (nid successor) (st\<lparr>parent := (parent st)(nid successor \<mapsto> v)\<rparr>) = Some (x, y)"
    by simp
  have "colors (st\<lparr>parent := (parent st)(nid successor \<mapsto> v)\<rparr>) z = WHITE" if "colors y z = WHITE" for z
    using dom d' that by (rule dfs_white_mono_p(1))
  moreover have "colors (st\<lparr>parent := (parent st)(nid successor \<mapsto> v)\<rparr>) = colors st"
    by simp
  ultimately show "(Inr (graph, v, rest, y), Inr (graph, v, successor # rest, st)) \<in> dfs_m1 <*mlex*> measure dfs_m2"
    by (rule dfs_term3)
next
  fix graph :: TaskGraph and v :: string and successor :: TaskNode and rest and st :: dfs_state and x2 x y
  assume d: "dfs graph (nid successor) (st\<lparr>parent := (parent st)(nid successor \<mapsto> v)\<rparr>) = Some x2"
    and x2: "(x, y) = x2"
    and dom: "dfs_dfs_loop_dom (Inl (graph, nid successor, st\<lparr>parent := (parent st)(nid successor \<mapsto> v)\<rparr>))"
  from d x2 have d': "dfs graph (nid successor) (st\<lparr>parent := (parent st)(nid successor \<mapsto> v)\<rparr>) = Some (x, y)"
    by simp
  have "colors (st\<lparr>parent := (parent st)(nid successor \<mapsto> v)\<rparr>) z = WHITE" if "colors y z = WHITE" for z
    using dom d' that by (rule dfs_white_mono_p(1))
  moreover have "colors (st\<lparr>parent := (parent st)(nid successor \<mapsto> v)\<rparr>) = colors st"
    by simp
  ultimately show "(Inr (graph, v, rest, y), Inr (graph, v, successor # rest, st)) \<in> dfs_m1 <*mlex*> measure dfs_m2"
    by (rule dfs_term3)
next
  fix graph :: TaskGraph and v :: string and successor :: TaskNode and rest and st :: dfs_state
  have "\<And>z. colors st z = WHITE \<Longrightarrow> colors st z = WHITE" and "colors st = colors st"
    by simp_all
  then show "(Inr (graph, v, rest, st), Inr (graph, v, successor # rest, st)) \<in> dfs_m1 <*mlex*> measure dfs_m2"
    by (rule dfs_term3)
qed

text \<open>
  The \<open>for node in graph.nodes\<close> loop of \<open>_check_cycles\<close>: a search from every node
  that is still white, and a warning or an error for the cycle it returns.
\<close>


fun check_cycles_loop :: "TaskGraph \<Rightarrow> TaskNode list \<Rightarrow> dfs_state \<Rightarrow> ValidationResult
                            \<Rightarrow> ValidationResult option" where
  "check_cycles_loop graph [] st result = Some result"
| "check_cycles_loop graph (node # rest) st result =
     (if colors st (nid node) = WHITE then
        (case dfs graph (nid node) st of
           None \<Rightarrow> None
         | Some (None, st') \<Rightarrow> check_cycles_loop graph rest st' result
         | Some (Some cycle, st') \<Rightarrow>
             if cycle \<noteq> [] then
               (let cycle_nodes = map (get_node graph) cycle;
                    has_decision = list_ex (\<lambda>n. case n of None \<Rightarrow> False
                                                     | Some n' \<Rightarrow> node_type n' = DECISION) cycle_nodes
                in if has_decision then
                     check_cycles_loop graph rest st'
                       (add_warning result ''DECISION_LOOP''
                          (''Found a loop through decision node. This is valid ''
                             @ ''for retry/review workflows. Cycle: '' @ join '' -> '' cycle)
                          None)
                   else
                     check_cycles_loop graph rest st'
                       (add_error result ''INVALID_CYCLE''
                          (''Found a cycle that doesn't go through a decision ''
                             @ ''node: '' @ join '' -> '' cycle @ ''. Cycles are only ''
                             @ ''allowed for decision-based loops.'')
                          None))
             else check_cycles_loop graph rest st' result)
      else check_cycles_loop graph rest st result)"

fun check_cycles :: "vstate \<Rightarrow> vstate option" where
  "check_cycles (graph, result) =
     (case check_cycles_loop graph (nodes graph)
             \<lparr>colors = (\<lambda>_. WHITE), parent = Map.empty\<rparr> result of
        None \<Rightarrow> None
      | Some result' \<Rightarrow> Some (graph, result'))"

text \<open>\<open>_check_node_names\<close>.\<close>

definition check_node_name :: "TaskNode \<Rightarrow> ValidationResult \<Rightarrow> ValidationResult" where
  "check_node_name node result =
     (if node_type node \<in> set [START, END] then result
      else if name node = [] \<or> strip_is_empty (name node) then
        add_warning result ''EMPTY_NODE_NAME''
          (''Node '' @ nid node @ '' has no name. Consider adding a description.'')
          (Some (nid node))
      else if startswith (name node) ''Task '' \<and> isdigit (drop 5 (name node)) then
        add_warning result ''GENERIC_NODE_NAME''
          (''Node '' @ sq @ name node @ sq @ '' ('' @ nid node @ '') has a generic name. ''
             @ ''Consider adding a more descriptive label.'')
          (Some (nid node))
      else result)"

fun check_node_names :: "vstate \<Rightarrow> vstate" where
  "check_node_names (graph, result) = (graph, fold check_node_name (nodes graph) result)"

text \<open>
  \<open>validate\<close> returns the result object; the value here is the pair of the graph
  after the call and that result. The value is \<open>None\<close> only if the walk along the
  parent links does not return, which \<open>validate_total_consistent\<close> excludes.
\<close>

definition validate :: "TaskGraph \<Rightarrow> vstate option" where
  "validate graph =
     (let s = check_empty_graph (graph, new_result) in
      if \<not> valid (snd s) then Some s
      else
        (let s = check_start_nodes s;
             s = check_end_nodes s;
             s = check_edge_references s;
             s = check_decision_nodes s;
             s = check_orphan_nodes s;
             s = check_connectivity s
         in case check_cycles s of
              None \<Rightarrow> None
            | Some s \<Rightarrow> Some (check_node_names s)))"

section \<open>The depth-first search returns\<close>

text \<open>
  The parent links always lead from a node to a node that was discovered earlier: the
  relation they form is well-founded, and only nodes that are no longer white have or
  are parents. So the walk of \<open>reconstruct_cycle\<close> ends.
\<close>

definition parent_rel :: "(string \<rightharpoonup> string) \<Rightarrow> (string \<times> string) set" where
  "parent_rel par = {(u, c). par c = Some u}"

definition dfs_inv :: "dfs_state \<Rightarrow> bool" where
  "dfs_inv st \<longleftrightarrow> wf (parent_rel (parent st))
     \<and> (\<forall>c u. parent st c = Some u \<longrightarrow> colors st u \<noteq> WHITE \<and> colors st c \<noteq> WHITE)"

lemma reconstruct_cycle_total:
  assumes "wf (parent_rel par)"
  shows "\<exists>cyc. reconstruct_cycle par target current cycle = Some cyc"
  using assms
proof (induction current arbitrary: cycle rule: wf_induct_rule)
  case (less current)
  show ?case
  proof (cases "current \<noteq> target \<and> (\<exists>p. par current = Some p \<and> p \<noteq> [])")
    case True
    then obtain p where p: "par current = Some p" "p \<noteq> []" "current \<noteq> target" by blast
    then have "(p, current) \<in> parent_rel par" by (simp add: parent_rel_def)
    from less.IH [OF this] obtain cyc where
      "reconstruct_cycle par target p (cycle @ [current]) = Some cyc" by blast
    with p show ?thesis
      by (subst reconstruct_cycle.simps) simp
  next
    case False
    then show ?thesis
      by (subst reconstruct_cycle.simps) (auto split: option.splits)
  qed
qed

lemma parent_rel_upd:
  assumes "par s = None"
  shows "parent_rel (par(s \<mapsto> v)) = insert (v, s) (parent_rel par)"
  using assms by (auto simp: parent_rel_def split: if_splits)

lemma dfs_inv_set_parent:
  assumes inv: "dfs_inv st" and s: "colors st s = WHITE" and v: "colors st v \<noteq> WHITE"
  shows "wf (parent_rel (parent (st\<lparr>parent := (parent st)(s \<mapsto> v)\<rparr>)))"
proof -
  from inv s have none: "parent st s = None"
    by (cases "parent st s") (auto simp: dfs_inv_def)
  have "(s, v) \<notin> (parent_rel (parent st))\<^sup>*"
  proof
    assume "(s, v) \<in> (parent_rel (parent st))\<^sup>*"
    then show False
    proof (cases rule: converse_rtranclE)
      case base
      with s v show False by simp
    next
      case (step z)
      then have "parent st z = Some s" by (simp add: parent_rel_def)
      with inv have "colors st s \<noteq> WHITE" by (auto simp: dfs_inv_def)
      with s show False by simp
    qed
  qed
  moreover have "parent_rel ((parent st)(s \<mapsto> v)) = insert (v, s) (parent_rel (parent st))"
    using none by (rule parent_rel_upd)
  ultimately show ?thesis
    using inv by (simp add: wf_insert dfs_inv_def)
qed

lemma dfs_total:
  "wf (parent_rel (parent st)) \<Longrightarrow>
   (\<forall>c u. parent st c = Some u \<longrightarrow> colors st u \<noteq> WHITE \<and> (c = v \<or> colors st c \<noteq> WHITE)) \<Longrightarrow>
     \<exists>r st'. dfs graph v st = Some (r, st') \<and> dfs_inv st'
        \<and> (\<forall>x. colors st x \<noteq> WHITE \<longrightarrow> colors st' x \<noteq> WHITE)"
  "dfs_inv st \<Longrightarrow> colors st v \<noteq> WHITE \<Longrightarrow>
     \<exists>r st'. dfs_loop graph v succs st = Some (r, st') \<and> dfs_inv st'
        \<and> (\<forall>x. colors st x \<noteq> WHITE \<longrightarrow> colors st' x \<noteq> WHITE)"
proof (induct graph v st and graph v succs st rule: dfs_dfs_loop.induct)
  case (1 graph v st)
  let ?sg = "st\<lparr>colors := (colors st)(v := GRAY)\<rparr>"
  from "1.prems" have "dfs_inv ?sg" "colors ?sg v \<noteq> WHITE"
    by (auto simp: dfs_inv_def)
  from "1.hyps" [OF this] obtain r1 st1 where
    l: "dfs_loop graph v (get_successors graph v) ?sg = Some (r1, st1)"
    and inv1: "dfs_inv st1"
    and mono1: "\<forall>x. colors ?sg x \<noteq> WHITE \<longrightarrow> colors st1 x \<noteq> WHITE"
    by blast
  show ?case
  proof (cases r1)
    case None
    have "dfs_inv (st1\<lparr>colors := (colors st1)(v := BLACK)\<rparr>)"
      using inv1 by (auto simp: dfs_inv_def)
    with None l mono1 show ?thesis by auto
  next
    case (Some c)
    with l inv1 mono1 show ?thesis by auto
  qed
next
  case (2 graph v st)
  then show ?case by simp
next
  case (3 graph v successor rest st)
  note inv = "3.prems"(1) and vnw = "3.prems"(2)
  show ?case
  proof (cases "colors st (nid successor) = GRAY")
    case True
    from inv have "wf (parent_rel (parent st))" by (simp add: dfs_inv_def)
    from reconstruct_cycle_total [OF this] obtain cyc where
      "reconstruct_cycle (parent st) (nid successor) v [nid successor] = Some cyc" by blast
    with True inv show ?thesis by simp
  next
    case ng: False
    show ?thesis
    proof (cases "colors st (nid successor) = WHITE")
      case False
      from "3.hyps"(4) [OF ng False inv vnw] ng False show ?thesis by simp
    next
      case w: True
      let ?st0 = "st\<lparr>parent := (parent st)(nid successor \<mapsto> v)\<rparr>"
      have wf0: "wf (parent_rel (parent ?st0))"
        using inv w vnw by (rule dfs_inv_set_parent)
      have col0: "\<forall>c u. parent ?st0 c = Some u \<longrightarrow>
                 colors ?st0 u \<noteq> WHITE \<and> (c = nid successor \<or> colors ?st0 c \<noteq> WHITE)"
        using inv vnw by (auto simp: dfs_inv_def)
      from "3.hyps"(1) [OF ng w wf0 col0] obtain r1 st1 where
        d: "dfs graph (nid successor) ?st0 = Some (r1, st1)"
        and inv1: "dfs_inv st1"
        and mono1: "\<forall>x. colors ?st0 x \<noteq> WHITE \<longrightarrow> colors st1 x \<noteq> WHITE"
        by blast
      from mono1 vnw have vnw1: "colors st1 v \<noteq> WHITE" by simp
      from mono1 have mono1': "\<forall>x. colors st x \<noteq> WHITE \<longrightarrow> colors st1 x \<noteq> WHITE" by simp
      show ?thesis
      proof (cases "\<exists>c. r1 = Some c \<and> c \<noteq> []")
        case True
        with ng w d inv1 mono1' show ?thesis by auto
      next
        case False
        then have r1: "r1 = None \<or> r1 = Some []" by (cases r1) auto
        have "\<exists>r st'. dfs_loop graph v rest st1 = Some (r, st') \<and> dfs_inv st'
                \<and> (\<forall>x. colors st1 x \<noteq> WHITE \<longrightarrow> colors st' x \<noteq> WHITE)"
          using r1
        proof
          assume "r1 = None"
          then show ?thesis
            using "3.hyps"(2) [OF ng w d, of r1 st1] inv1 vnw1 by simp
        next
          assume "r1 = Some []"
          then show ?thesis
            using "3.hyps"(3) [OF ng w d, of r1 st1 "[]"] inv1 vnw1 by simp
        qed
        then obtain r st' where l: "dfs_loop graph v rest st1 = Some (r, st')" and "dfs_inv st'"
          and "\<forall>x. colors st1 x \<noteq> WHITE \<longrightarrow> colors st' x \<noteq> WHITE" by blast
        moreover from r1 d l ng w have "dfs_loop graph v (successor # rest) st = Some (r, st')"
          by auto
        ultimately show ?thesis using mono1' by auto
      qed
    qed
  qed
qed

section \<open>Every check keeps the graph and the consistency of the result\<close>

definition consistent :: "ValidationResult \<Rightarrow> bool" where
  "consistent r \<longleftrightarrow> (valid r \<longleftrightarrow> errors r = [])"

lemma consistent_new: "consistent new_result"
  by (simp add: consistent_def new_result_def)

lemma consistent_add_error: "consistent (add_error r c m n)"
  by (simp add: consistent_def add_error_def)

lemma consistent_add_warning: "consistent r \<Longrightarrow> consistent (add_warning r c m n)"
  by (simp add: consistent_def add_warning_def)

lemmas consistent_intros = consistent_add_error consistent_add_warning

lemma check_empty_graph_frame: "fst (check_empty_graph s) = fst s"
  by (cases s) simp

lemma check_empty_graph_consistent: "consistent (snd s) \<Longrightarrow> consistent (snd (check_empty_graph s))"
  by (cases s) (simp add: consistent_intros)

lemma check_start_nodes_frame: "fst (check_start_nodes s) = fst s"
  by (cases s) (simp add: Let_def split: list.splits)

lemma check_start_nodes_consistent: "consistent (snd s) \<Longrightarrow> consistent (snd (check_start_nodes s))"
  by (cases s) (simp add: Let_def consistent_intros split: list.splits)

lemma check_end_nodes_frame: "fst (check_end_nodes s) = fst s"
  by (cases s) (simp add: Let_def split: list.splits)

lemma check_end_nodes_consistent: "consistent (snd s) \<Longrightarrow> consistent (snd (check_end_nodes s))"
  by (cases s) (simp add: Let_def consistent_intros split: list.splits)

lemma check_edge_consistent: "consistent r \<Longrightarrow> consistent (check_edge ids e r)"
  by (simp add: check_edge_def Let_def consistent_intros)

lemma fold_consistent:
  assumes "\<And>x r. consistent r \<Longrightarrow> consistent (f x r)" and "consistent r"
  shows "consistent (fold f xs r)"
  using assms(2) by (induction xs arbitrary: r) (simp_all add: assms(1))

lemma check_edge_references_frame: "fst (check_edge_references s) = fst s"
  by (cases s) (simp add: Let_def)

lemma check_edge_references_consistent:
  "consistent (snd s) \<Longrightarrow> consistent (snd (check_edge_references s))"
  by (cases s) (simp add: Let_def fold_consistent check_edge_consistent)

lemma check_decision_node_consistent: "consistent r \<Longrightarrow> consistent (check_decision_node g n r)"
  by (simp add: check_decision_node_def Let_def consistent_intros)

lemma check_decision_nodes_frame: "fst (check_decision_nodes s) = fst s"
  by (cases s) simp

lemma check_decision_nodes_consistent:
  "consistent (snd s) \<Longrightarrow> consistent (snd (check_decision_nodes s))"
  by (cases s) (simp add: fold_consistent check_decision_node_consistent)

lemma check_orphan_node_consistent: "consistent r \<Longrightarrow> consistent (check_orphan_node g ids n r)"
  by (simp add: check_orphan_node_def Let_def consistent_intros)

lemma check_orphan_nodes_frame: "fst (check_orphan_nodes s) = fst s"
  by (cases s) (simp add: Let_def)

lemma check_orphan_nodes_consistent:
  "consistent (snd s) \<Longrightarrow> consistent (snd (check_orphan_nodes s))"
  by (cases s) (simp add: Let_def fold_consistent check_orphan_node_consistent)

lemma check_connectivity_frame: "fst (check_connectivity s) = fst s"
  by (cases s) (simp add: Let_def split: option.splits)

lemma check_connectivity_consistent:
  "consistent (snd s) \<Longrightarrow> consistent (snd (check_connectivity s))"
  by (cases s) (simp add: Let_def consistent_intros split: option.splits)

lemma check_node_name_consistent: "consistent r \<Longrightarrow> consistent (check_node_name n r)"
  by (simp add: check_node_name_def consistent_intros)

lemma check_node_names_frame: "fst (check_node_names s) = fst s"
  by (cases s) simp

lemma check_node_names_consistent:
  "consistent (snd s) \<Longrightarrow> consistent (snd (check_node_names s))"
  by (cases s) (simp add: fold_consistent check_node_name_consistent)

lemma dfs_inv_toplevel:
  assumes "dfs_inv st"
  shows "\<exists>r st'. dfs graph v st = Some (r, st') \<and> dfs_inv st'"
proof -
  from assms have "wf (parent_rel (parent st))"
    and "\<forall>c u. parent st c = Some u \<longrightarrow> colors st u \<noteq> WHITE \<and> (c = v \<or> colors st c \<noteq> WHITE)"
    by (auto simp: dfs_inv_def)
  from dfs_total(1) [OF this] show ?thesis by blast
qed

lemma check_cycles_loop_total:
  assumes "dfs_inv st" and "consistent result"
  shows "\<exists>result'. check_cycles_loop graph ns st result = Some result' \<and> consistent result'"
  using assms
proof (induction ns arbitrary: st result)
  case Nil
  then show ?case by simp
next
  case (Cons node rest)
  show ?case
  proof (cases "colors st (nid node) = WHITE")
    case False
    with Cons.IH [OF Cons.prems] show ?thesis by simp
  next
    case True
    from dfs_inv_toplevel [OF Cons.prems(1)] obtain r st' where
      d: "dfs graph (nid node) st = Some (r, st')" and inv': "dfs_inv st'" by blast
    note ih = Cons.IH [OF inv']
    show ?thesis
    proof (cases r)
      case None
      with True d ih [OF Cons.prems(2)] show ?thesis by simp
    next
      case (Some cycle)
      with True d ih [OF Cons.prems(2)]
        ih [OF consistent_add_error] ih [OF consistent_add_warning [OF Cons.prems(2)]]
      show ?thesis by (simp add: Let_def)
    qed
  qed
qed

lemma dfs_inv_init: "dfs_inv \<lparr>colors = (\<lambda>_. WHITE), parent = Map.empty\<rparr>"
  by (simp add: dfs_inv_def parent_rel_def)

lemma check_cycles_total:
  assumes "consistent (snd s)"
  shows "\<exists>r. check_cycles s = Some (fst s, r) \<and> consistent r"
proof (cases s)
  case (Pair graph result)
  with assms have "consistent result" by simp
  from check_cycles_loop_total [OF dfs_inv_init this, of graph "nodes graph"] Pair
  show ?thesis by auto
qed

lemma validate_total_consistent:
  "\<exists>r. validate g = Some (g, r) \<and> consistent r"
proof -
  let ?s0 = "check_empty_graph (g, new_result)"
  have f0: "fst ?s0 = g" and c0: "consistent (snd ?s0)"
    by (simp_all add: consistent_intros consistent_new)
  show ?thesis
  proof (cases "valid (snd ?s0)")
    case False
    then have "validate g = Some ?s0"
      by (simp add: validate_def Let_def)
    with f0 c0 show ?thesis
      by (metis prod.collapse)
  next
    case True
    let ?s6 = "check_connectivity (check_orphan_nodes (check_decision_nodes
                 (check_edge_references (check_end_nodes (check_start_nodes ?s0)))))"
    have f6: "fst ?s6 = g"
      by (simp only: check_connectivity_frame check_orphan_nodes_frame check_decision_nodes_frame
            check_edge_references_frame check_end_nodes_frame check_start_nodes_frame f0)
    have c6: "consistent (snd ?s6)"
      by (intro check_connectivity_consistent check_orphan_nodes_consistent
            check_decision_nodes_consistent check_edge_references_consistent
            check_end_nodes_consistent check_start_nodes_consistent c0)
    from check_cycles_total [OF c6] f6 obtain r where
      cy: "check_cycles ?s6 = Some (g, r)" and cr: "consistent r" by auto
    have "fst (check_node_names (g, r)) = g" "consistent (snd (check_node_names (g, r)))"
      using cr by (simp_all add: fold_consistent check_node_name_consistent)
    moreover from True cy have "validate g = Some (check_node_names (g, r))"
      by (simp add: validate_def Let_def)
    ultimately show ?thesis
      by (metis prod.collapse)
  qed
qed

section \<open>Claim C8: valid means no errors\<close>

text \<open>
  C8. The validator returns a result on every graph, and in that result \<open>valid\<close> is true
  exactly when the error list is empty. \<open>add_warning\<close>, once or any number of times,
  leaves \<open>valid\<close> and the error list as they are; \<open>add_error\<close> makes \<open>valid\<close> false
  and the error list non-empty.
\<close>

lemma fold_add_warning:
  "valid (fold (\<lambda>w r. add_warning r (code w) (message w) (node_id w)) ws r) = valid r
   \<and> errors (fold (\<lambda>w r. add_warning r (code w) (message w) (node_id w)) ws r) = errors r"
  by (induction ws arbitrary: r) (simp_all add: add_warning_def)

theorem C8_valid_iff_no_errors:
  "(\<exists>r. validate g = Some (g, r) \<and> (valid r \<longleftrightarrow> errors r = []))
   \<and> valid (add_warning r c m n) = valid r
   \<and> errors (add_warning r c m n) = errors r
   \<and> valid (fold (\<lambda>w r. add_warning r (code w) (message w) (node_id w)) ws r) = valid r
   \<and> \<not> valid (add_error r c m n)
   \<and> errors (add_error r c m n) \<noteq> []"
proof -
  from validate_total_consistent [of g]
  have "\<exists>r. validate g = Some (g, r) \<and> (valid r \<longleftrightarrow> errors r = [])"
    by (simp add: consistent_def)
  moreover have "valid (add_warning r c m n) = valid r" "errors (add_warning r c m n) = errors r"
    by (simp_all add: add_warning_def)
  moreover have "\<not> valid (add_error r c m n)" "errors (add_error r c m n) \<noteq> []"
    by (simp_all add: add_error_def)
  ultimately show ?thesis
    using fold_add_warning by blast
qed

section \<open>Claim C9: validation leaves the graph as it was\<close>

text \<open>
  C9. \<open>validate\<close> returns on every graph, and the graph after the call is the graph
  before the call: the same node list (every field of every node), the same edge list
  and the same metadata. Every check writes to the result object only.
\<close>

theorem C9_validate_keeps_graph:
  "\<exists>s. validate g = Some s \<and> fst s = g \<and> nodes (fst s) = nodes g
       \<and> edges (fst s) = edges g \<and> graph_metadata (fst s) = graph_metadata g"
proof -
  from validate_total_consistent [of g] obtain r where "validate g = Some (g, r)"
    by blast
  then show ?thesis by simp
qed

section \<open>Claim C2: cycles and decision loops in the validator\<close>

text \<open>
  \<open>mk_node\<close> is \<open>TaskNode(id, name, node_type)\<close> with the defaults of the dataclass,
  \<open>mk_edge\<close> is \<open>TaskEdge(source_id, target_id, condition)\<close>.
\<close>

definition mk_node :: "string \<Rightarrow> string \<Rightarrow> NodeType \<Rightarrow> TaskNode" where
  "mk_node i nm ty = \<lparr>nid = i, name = nm, node_type = ty, model = ''claude'', system_prompt = None,
                       inputs = [], outputs = [], metadata = Map.empty\<rparr>"

definition mk_edge :: "string \<Rightarrow> string \<Rightarrow> string option \<Rightarrow> TaskEdge" where
  "mk_edge s t c = \<lparr>source_id = s, target_id = t, condition = c, label = None\<rparr>"

definition review_loop_graph :: TaskGraph where
  "review_loop_graph =
     \<lparr>nodes = [mk_node ''s'' ''Start'' START, mk_node ''d'' ''Review change'' DECISION,
               mk_node ''p'' ''Fix change'' PROCESS, mk_node ''q'' ''Deploy change'' PROCESS,
               mk_node ''e'' ''End'' END],
      edges = [mk_edge ''s'' ''d'' None, mk_edge ''d'' ''p'' (Some ''rejected''),
               mk_edge ''p'' ''d'' None, mk_edge ''d'' ''q'' (Some ''validated''),
               mk_edge ''q'' ''p'' None, mk_edge ''q'' ''e'' None],
      graph_metadata = Map.empty\<rparr>"

definition hidden_cycle_graph :: TaskGraph where
  "hidden_cycle_graph =
     \<lparr>nodes = [mk_node ''s'' ''Start'' START, mk_node ''a'' ''Build'' PROCESS,
               mk_node ''b'' ''Package'' PROCESS, mk_node ''d'' ''Accept'' DECISION,
               mk_node ''e'' ''End'' END],
      edges = [mk_edge ''s'' ''a'' None, mk_edge ''a'' ''b'' None,
               mk_edge ''b'' ''d'' None, mk_edge ''b'' ''a'' None,
               mk_edge ''d'' ''b'' (Some ''rejected''), mk_edge ''d'' ''e'' (Some ''validated'')],
      graph_metadata = Map.empty\<rparr>"

text \<open>
  C2 says: a graph whose cycles pass through a decision node (and that has no other
  defect) is valid with a \<open>DECISION_LOOP\<close> warning; a graph with a cycle that has no
  decision node is invalid with an \<open>INVALID_CYCLE\<close> error; and the message names the
  actual cycle. The search of \<open>_check_cycles\<close> returns at the first back edge and
  leaves the nodes on its path gray, so both parts fail:

  \<^item> in \<open>review_loop_graph\<close> both cycles (d, p) and (d, q, p) pass through the decision
    node d, yet the later search from q meets the stale gray p and reports the path
    p, q, p, which is no path of the graph (p has no edge to q), as an invalid cycle;
  \<^item> in \<open>hidden_cycle_graph\<close> the cycle (a, b) has no decision node, yet the search
    returns with the decision loop (b, d) before it looks at the edge from b to a, and
    the result is valid.
\<close>

theorem C2_validate_on_review_loop_and_hidden_cycle:
  "map_option snd (validate review_loop_graph) =
     Some \<lparr>valid = False,
       errors = [\<lparr>code = ''INVALID_CYCLE'',
           message = ''Found a cycle that doesn't go through a decision node: p -> q -> p. Cycles are only allowed for decision-based loops.'',
           node_id = None, severity = error\<rparr>],
       warnings = [\<lparr>code = ''DECISION_LOOP'',
           message = ''Found a loop through decision node. This is valid for retry/review workflows. Cycle: d -> p -> d'',
           node_id = None, severity = warning\<rparr>]\<rparr>
   \<and> map nid (get_successors review_loop_graph ''p'') = [''d'']
   \<and> map_option snd (validate hidden_cycle_graph) =
     Some \<lparr>valid = True, errors = [],
       warnings = [\<lparr>code = ''DECISION_LOOP'',
           message = ''Found a loop through decision node. This is valid for retry/review workflows. Cycle: b -> d -> b'',
           node_id = None, severity = warning\<rparr>]\<rparr>
   \<and> map nid (get_successors hidden_cycle_graph ''a'') = [''b'']
   \<and> map nid (get_successors hidden_cycle_graph ''b'') = [''d'', ''a'']
   \<and> map_option node_type (get_node hidden_cycle_graph ''a'') = Some PROCESS
   \<and> map_option node_type (get_node hidden_cycle_graph ''b'') = Some PROCESS"
  by code_simp

section \<open>Parallel groups (flowchart/ir.py)\<close>

text \<open>
  \<open>calculate_level\<close> is the inner function of \<open>get_parallel_groups\<close>. The dictionary
  \<open>levels\<close> is shared by all calls, so it is passed in and returned; \<open>visited\<close> is
  copied at every call, so it is passed by value. \<open>pred_levels\<close> is the generator
  inside \<open>max(...)\<close>: the levels of the predecessors, computed from left to right.
\<close>

function calculate_level :: "TaskGraph \<Rightarrow> string \<Rightarrow> string set \<Rightarrow> (string \<rightharpoonup> nat)
                               \<Rightarrow> nat \<times> (string \<rightharpoonup> nat)"
  and pred_levels :: "TaskGraph \<Rightarrow> TaskNode list \<Rightarrow> string set \<Rightarrow> (string \<rightharpoonup> nat)
                               \<Rightarrow> nat list \<times> (string \<rightharpoonup> nat)"
where
  "calculate_level graph node_id' visited levels =
     (case levels node_id' of
        Some level \<Rightarrow> (level, levels)
      | None \<Rightarrow>
          if node_id' \<in> visited then (0, levels)
          else
            (let visited = insert node_id' visited;
                 predecessors = get_predecessors graph node_id'
             in if predecessors = [] then (0, levels(node_id' \<mapsto> 0))
                else
                  (case pred_levels graph predecessors visited levels of
                     (pls, levels) \<Rightarrow>
                       (let max_pred_level = Max (set pls)
                        in (max_pred_level + 1, levels(node_id' \<mapsto> max_pred_level + 1))))))"
| "pred_levels graph [] visited levels = ([], levels)"
| "pred_levels graph (pred # rest) visited levels =
     (case calculate_level graph (nid pred) visited levels of
        (pl, levels) \<Rightarrow>
          (case pred_levels graph rest visited levels of
             (pls, levels) \<Rightarrow> (pl # pls, levels)))"
  by pat_completeness auto

definition level_m1 ::
  "TaskGraph \<times> string \<times> string set \<times> (string \<rightharpoonup> nat)
     + TaskGraph \<times> TaskNode list \<times> string set \<times> (string \<rightharpoonup> nat) \<Rightarrow> nat" where
  "level_m1 x = (case x of
       Inl (graph, v, visited, levels) \<Rightarrow> 2 * card ((node_ids graph \<union> {v}) - visited) + 1
     | Inr (graph, preds, visited, levels) \<Rightarrow>
         2 * card ((node_ids graph \<union> nid ` set preds) - visited) + 2)"

definition level_m2 ::
  "TaskGraph \<times> string \<times> string set \<times> (string \<rightharpoonup> nat)
     + TaskGraph \<times> TaskNode list \<times> string set \<times> (string \<rightharpoonup> nat) \<Rightarrow> nat" where
  "level_m2 x = (case x of Inl _ \<Rightarrow> 0 | Inr (graph, preds, visited, levels) \<Rightarrow> length preds)"

lemma level_term1:
  assumes "v \<notin> visited"
  shows "(Inr (graph, get_predecessors graph v, insert v visited, levels), Inl (graph, v, visited, levels'))
           \<in> level_m1 <*mlex*> measure level_m2"
proof -
  have sub: "nid ` set (get_predecessors graph v) \<subseteq> node_ids graph"
    using get_predecessors_subset [of graph v] by (auto simp: node_ids_def)
  let ?A = "(node_ids graph \<union> nid ` set (get_predecessors graph v)) - insert v visited"
  let ?B = "(node_ids graph \<union> {v}) - visited"
  have "?A \<subset> ?B" using sub assms by auto
  moreover have "finite ?B" by (simp add: finite_node_ids)
  ultimately have "card ?A < card ?B" by (rule psubset_card_mono [rotated])
  then have "level_m1 (Inr (graph, get_predecessors graph v, insert v visited, levels))
             < level_m1 (Inl (graph, v, visited, levels'))"
    by (simp only: level_m1_def sum.case prod.case)
  then show ?thesis by (rule mlex_less)
qed

lemma level_term2:
  "(Inl (graph, nid p, visited, levels), Inr (graph, p # rest, visited, levels'))
           \<in> level_m1 <*mlex*> measure level_m2"
proof -
  let ?A = "(node_ids graph \<union> {nid p}) - visited"
  let ?B = "(node_ids graph \<union> nid ` set (p # rest)) - visited"
  have "?A \<subseteq> ?B" by auto
  moreover have "finite ?B" by (simp add: finite_node_ids)
  ultimately have "card ?A \<le> card ?B" by (rule card_mono [rotated])
  then have "level_m1 (Inl (graph, nid p, visited, levels))
             < level_m1 (Inr (graph, p # rest, visited, levels'))"
    by (simp only: level_m1_def sum.case prod.case)
  then show ?thesis by (rule mlex_less)
qed

lemma level_term3:
  "(Inr (graph, rest, visited, levels), Inr (graph, p # rest, visited, levels'))
           \<in> level_m1 <*mlex*> measure level_m2"
proof -
  let ?A = "(node_ids graph \<union> nid ` set rest) - visited"
  let ?B = "(node_ids graph \<union> nid ` set (p # rest)) - visited"
  have "?A \<subseteq> ?B" by auto
  moreover have "finite ?B" by (simp add: finite_node_ids)
  ultimately have "card ?A \<le> card ?B" by (rule card_mono [rotated])
  then have "level_m1 (Inr (graph, rest, visited, levels))
             \<le> level_m1 (Inr (graph, p # rest, visited, levels'))"
    by (simp only: level_m1_def sum.case prod.case)
  moreover have "(Inr (graph, rest, visited, levels), Inr (graph, p # rest, visited, levels'))
                   \<in> measure level_m2"
    by (simp add: level_m2_def)
  ultimately show ?thesis by (rule mlex_leq)
qed

termination calculate_level
  apply (relation "level_m1 <*mlex*> measure level_m2")
     apply (simp add: wf_mlex)
    apply (simp only:)
    apply (erule level_term1)
   apply (rule level_term2)
  apply (rule level_term3)
  done

text \<open>
  \<open>get_parallel_groups\<close>: the levels of all nodes, then the nodes grouped by level.
  \<open>level_groups\<close> is a dictionary from levels to node lists; it is kept as an
  association list in insertion order, and read in the order of its sorted keys.
\<close>

definition calculate_levels :: "TaskGraph \<Rightarrow> (string \<rightharpoonup> nat)" where
  "calculate_levels graph =
     fold (\<lambda>node levels. snd (calculate_level graph (nid node) {} levels)) (nodes graph) Map.empty"

definition levels_get :: "(string \<rightharpoonup> nat) \<Rightarrow> string \<Rightarrow> nat" where
  "levels_get levels i = (case levels i of None \<Rightarrow> 0 | Some level \<Rightarrow> level)"

definition group_append :: "nat \<Rightarrow> TaskNode \<Rightarrow> (nat \<times> TaskNode list) list \<Rightarrow> (nat \<times> TaskNode list) list" where
  "group_append level node level_groups =
     (let level_groups = (if level \<notin> set (map fst level_groups)
                          then level_groups @ [(level, [])] else level_groups)
      in map (\<lambda>(k, ns). if k = level then (k, ns @ [node]) else (k, ns)) level_groups)"

definition get_parallel_groups :: "TaskGraph \<Rightarrow> TaskNode list list" where
  "get_parallel_groups graph =
     (let levels = calculate_levels graph;
          level_groups = fold (\<lambda>node level_groups.
                                 group_append (levels_get levels (nid node)) node level_groups)
                              (nodes graph) []
      in map (\<lambda>level. the (map_of level_groups level)) (sort (map fst level_groups)))"

section \<open>The plan generator (flowchart/generator.py)\<close>

definition lower_char :: "char \<Rightarrow> char" where
  "lower_char c = (if CHR ''A'' \<le> c \<and> c \<le> CHR ''Z'' then char_of (of_char c + (32::nat)) else c)"

definition upper_char :: "char \<Rightarrow> char" where
  "upper_char c = (if CHR ''a'' \<le> c \<and> c \<le> CHR ''z'' then char_of (of_char c - (32::nat)) else c)"

definition is_alpha :: "char \<Rightarrow> bool" where
  "is_alpha c = ((CHR ''A'' \<le> c \<and> c \<le> CHR ''Z'') \<or> (CHR ''a'' \<le> c \<and> c \<le> CHR ''z''))"

definition lower :: "string \<Rightarrow> string" where
  "lower s = map lower_char s"

text \<open>\<open>s.title()\<close>: a letter after a letter is lowered, any other letter is raised.\<close>

fun title_from :: "bool \<Rightarrow> string \<Rightarrow> string" where
  "title_from prev [] = []"
| "title_from prev (c # cs) =
     (if is_alpha c then (if prev then lower_char c else upper_char c) # title_from True cs
      else c # title_from False cs)"

definition title :: "string \<Rightarrow> string" where
  "title s = title_from False s"

text \<open>\<open>kw in s\<close> on strings: \<open>kw\<close> occurs in \<open>s\<close>.\<close>

fun str_in :: "string \<Rightarrow> string \<Rightarrow> bool" where
  "str_in kw [] = (kw = [])"
| "str_in kw (c # s) = (startswith (c # s) kw \<or> str_in kw s)"

text \<open>\<open>any(kw in s for kw in kws)\<close>.\<close>

definition any_kw_in :: "string list \<Rightarrow> string \<Rightarrow> bool" where
  "any_kw_in kws s = list_ex (\<lambda>kw. str_in kw s) kws"

datatype Verification =
    Command string string
  | Api string string nat
  | Component string
  | Manual string

text \<open>The \<open>"type"\<close> entry of a verification dictionary.\<close>

fun verification_type :: "Verification \<Rightarrow> string" where
  "verification_type (Command run expected) = ''command''"
| "verification_type (Api method url expect_status) = ''api''"
| "verification_type (Component scenario) = ''component''"
| "verification_type (Manual scenario) = ''manual''"

text \<open>
  A subtask and a phase are dictionaries with optional entries; an entry that the
  generator does not set is \<open>None\<close>.
\<close>

record Subtask =
  subtask_id :: string
  description :: string
  status :: string
  patterns_from :: "string list option"
  files_to_create :: "string list option"
  verification :: "Verification option"
  service :: "string option"

record Phase =
  phase :: nat
  phase_name :: string
  phase_type :: string
  subtasks :: "Subtask list"
  chunks :: "Subtask list"
  depends_on :: "nat list option"
  parallel_safe :: "bool option"

record Plan =
  feature :: string
  workflow_type :: string
  services_involved :: "string list"
  phases :: "Phase list"
  final_acceptance :: "string list"
  created_at :: string
  updated_at :: string
  plan_status :: string
  planStatus :: string

definition get_phase_dependencies ::
  "TaskNode list \<Rightarrow> TaskGraph \<Rightarrow> (string \<rightharpoonup> nat) \<Rightarrow> nat list" where
  "get_phase_dependencies ns graph phase_map =
     (let depends_on =
            fold (\<lambda>node depends_on.
                    fold (\<lambda>predecessor depends_on.
                            if node_type predecessor = START then depends_on
                            else
                              (let pred_phase = phase_map (nid predecessor)
                               in if pred_phase \<noteq> None \<and> pred_phase \<noteq> phase_map (nid node)
                                  then insert (the pred_phase) depends_on
                                  else depends_on))
                         (get_predecessors graph (nid node)) depends_on)
                 ns {}
      in sorted_list_of_set depends_on)"

definition determine_phase_type :: "TaskNode list \<Rightarrow> string" where
  "determine_phase_type ns =
     (let investigation_keywords = [''analyze'', ''investigate'', ''research'', ''review'', ''assess''];
          has_investigation = list_ex (\<lambda>node. any_kw_in investigation_keywords (lower (name node))) ns
      in if has_investigation then ''investigation''
         else
           (let setup_keywords = [''setup'', ''configure'', ''install'', ''initialize'', ''create''];
                has_setup = list_ex (\<lambda>node. any_kw_in setup_keywords (lower (name node))) ns
            in if has_setup then ''setup''
               else
                 (let integration_keywords = [''integrate'', ''connect'', ''wire'', ''combine'', ''merge''];
                      has_integration = list_ex (\<lambda>node. any_kw_in integration_keywords (lower (name node))) ns
                  in if has_integration then ''integration''
                     else
                       (let cleanup_keywords = [''cleanup'', ''remove'', ''delete'', ''deprecate'', ''finalize''];
                            has_cleanup = list_ex (\<lambda>node. any_kw_in cleanup_keywords (lower (name node))) ns
                        in if has_cleanup then ''cleanup'' else ''implementation''))))"

definition is_parallel_safe :: "TaskNode list \<Rightarrow> TaskGraph \<Rightarrow> bool" where
  "is_parallel_safe ns graph =
     (let ids = set (map nid ns)
      in \<not> list_ex (\<lambda>node. list_ex (\<lambda>pred. nid pred \<in> ids) (get_predecessors graph (nid node))) ns)"

text \<open>
  \<open>_sanitize_id\<close>: every character outside \<open>[a-zA-Z0-9_-]\<close> becomes a dash, runs of
  dashes collapse, dashes at both ends are stripped, and the rest is lowered.
\<close>

definition is_id_char :: "char \<Rightarrow> bool" where
  "is_id_char c = (is_alpha c \<or> is_digit c \<or> c = CHR ''_'' \<or> c = CHR ''-'')"

fun collapse_dashes :: "string \<Rightarrow> string" where
  "collapse_dashes [] = []"
| "collapse_dashes [c] = [c]"
| "collapse_dashes (c # d # s) =
     (if c = CHR ''-'' \<and> d = CHR ''-'' then collapse_dashes (d # s) else c # collapse_dashes (d # s))"

definition strip_dashes :: "string \<Rightarrow> string" where
  "strip_dashes s =
     rev (dropWhile (\<lambda>c. c = CHR ''-'') (rev (dropWhile (\<lambda>c. c = CHR ''-'') s)))"

definition sanitize_id :: "string \<Rightarrow> string" where
  "sanitize_id i =
     (let sanitized = map (\<lambda>c. if is_id_char c then c else CHR ''-'') i;
          sanitized = collapse_dashes sanitized
      in lower (strip_dashes sanitized))"

definition determine_verification :: "TaskNode \<Rightarrow> Verification option" where
  "determine_verification node =
     (let name_lower = lower (name node) in
      if any_kw_in [''test'', ''verify'', ''validate''] name_lower then
        Some (Command ''npm test'' ''All tests pass'')
      else if any_kw_in [''api'', ''endpoint'', ''route''] name_lower then
        Some (Api ''GET'' ''/api/health'' 200)
      else if any_kw_in [''ui'', ''component'', ''page'', ''render''] name_lower then
        Some (Component (''Component renders: '' @ name node))
      else None)"

definition determine_service :: "TaskNode \<Rightarrow> string option" where
  "determine_service node =
     (let name_lower = lower (name node) in
      if metadata node ''service'' \<noteq> None then metadata node ''service''
      else if any_kw_in [''backend'', ''api'', ''server'', ''database'', ''model''] name_lower then
        Some ''backend''
      else if any_kw_in [''frontend'', ''ui'', ''component'', ''page'', ''react''] name_lower then
        Some ''frontend''
      else if any_kw_in [''worker'', ''queue'', ''job'', ''background''] name_lower then
        Some ''worker''
      else None)"

definition nonempty_list :: "string list \<Rightarrow> string list option" where
  "nonempty_list xs = (if xs \<noteq> [] then Some xs else None)"

definition node_to_subtask :: "TaskNode \<Rightarrow> Subtask" where
  "node_to_subtask node =
     (let subtask = \<lparr>subtask_id = sanitize_id (nid node), description = name node,
                      status = ''pending'', patterns_from = None, files_to_create = None,
                      verification = None, service = None\<rparr>;
          subtask = (if inputs node \<noteq> [] then subtask\<lparr>patterns_from := Some (inputs node)\<rparr>
                     else subtask);
          subtask = (if outputs node \<noteq> [] then subtask\<lparr>files_to_create := Some (outputs node)\<rparr>
                     else subtask);
          verification = determine_verification node;
          subtask = (if verification \<noteq> None then subtask\<lparr>verification := verification\<rparr>
                     else subtask);
          service = determine_service node;
          subtask = (if truthy service then subtask\<lparr>service := service\<rparr> else subtask)
      in if is_human node
         then subtask\<lparr>verification := Some (Manual (''Human review required: '' @ name node))\<rparr>
         else subtask)"

definition generate_phase_name :: "TaskNode list \<Rightarrow> nat \<Rightarrow> string" where
  "generate_phase_name ns phase_num =
     (if length ns = 1 then name (hd ns)
      else
        (let services = map determine_service ns;
             unique_services = filter truthy (remdups services)
         in if length unique_services = 1 then title (the (hd unique_services)) @ '' Implementation''
            else if list_ex is_human ns then ''Review & Validation''
            else ''Phase '' @ str_of_nat phase_num))"

definition collect_services :: "TaskGraph \<Rightarrow> string list" where
  "collect_services graph =
     (let services = fold (\<lambda>node services.
                             (let service = determine_service node
                              in if truthy service then insert (the service) services else services))
                          (nodes graph) {}
      in sorted_list_of_set services)"

definition generate_acceptance_criteria :: "TaskGraph \<Rightarrow> string list" where
  "generate_acceptance_criteria graph =
     (let end_nodes = get_end_nodes graph;
          criteria =
            fold (\<lambda>end_node criteria.
                    fold (\<lambda>pred criteria.
                            if node_type pred = PROCESS then criteria @ [''Completed: '' @ name pred]
                            else if node_type pred = HUMAN_REVIEW
                            then criteria @ [''Human approved: '' @ name pred]
                            else criteria)
                         (get_predecessors graph (nid end_node)) criteria)
                 end_nodes []
      in if criteria = []
         then [''All tasks completed successfully'', ''No critical errors or warnings'']
         else criteria)"

text \<open>
  The body of the \<open>for group in parallel_groups\<close> loop of \<open>generate\<close>, on the loop's
  state: the phase counter, the map from node ids to phase numbers and the phases so far.
\<close>

definition generate_group ::
  "TaskGraph \<Rightarrow> TaskNode list \<Rightarrow> nat \<times> (string \<rightharpoonup> nat) \<times> Phase list
     \<Rightarrow> nat \<times> (string \<rightharpoonup> nat) \<times> Phase list" where
  "generate_group graph grp state =
     (case state of (phase_counter, phase_map, phs) \<Rightarrow>
       (let process_nodes = filter (\<lambda>n. node_type n \<notin> set [START, END]) grp in
        if process_nodes = [] then (phase_counter, phase_map, phs)
        else
          (let phase_counter = phase_counter + 1;
               phase_num = phase_counter;
               phase_map = fold (\<lambda>node phase_map. phase_map(nid node \<mapsto> phase_num))
                             process_nodes phase_map;
               deps = get_phase_dependencies process_nodes graph phase_map;
               ptype = determine_phase_type process_nodes;
               psafe = (length process_nodes > 1 \<and> is_parallel_safe process_nodes graph);
               sts = map node_to_subtask process_nodes;
               ph = \<lparr>phase = phase_num,
                     phase_name = generate_phase_name process_nodes phase_num,
                     phase_type = ptype, subtasks = sts, chunks = sts,
                     depends_on = None, parallel_safe = None\<rparr>;
               ph = (if deps \<noteq> [] then ph\<lparr>depends_on := Some deps\<rparr> else ph);
               ph = (if psafe then ph\<lparr>parallel_safe := Some True\<rparr> else ph)
           in (phase_counter, phase_map, phs @ [ph]))))"

text \<open>
  \<open>generate\<close>. The two readings of the clock are parameters; \<open>feature_name\<close> is the
  optional argument.
\<close>

definition generate ::
  "TaskGraph \<Rightarrow> string option \<Rightarrow> string \<Rightarrow> string \<Rightarrow> string \<Rightarrow> Plan" where
  "generate graph feature_name wf_type now1 now2 =
     (let feature_name = (if \<not> truthy feature_name
                          then (case graph_metadata graph ''name'' of
                                  None \<Rightarrow> ''Flowchart Import'' | Some n \<Rightarrow> n)
                          else the feature_name);
          parallel_groups = get_parallel_groups graph;
          (phase_counter, phase_map, phs) =
             fold (generate_group graph) parallel_groups (0, Map.empty, []);
          services = collect_services graph;
          final = generate_acceptance_criteria graph
      in \<lparr>feature = feature_name, workflow_type = wf_type, services_involved = services,
           phases = phs, final_acceptance = final, created_at = now1, updated_at = now2,
           plan_status = ''backlog'', planStatus = ''pending''\<rparr>)"

section \<open>Claim C7: the acceptance criteria\<close>

text \<open>What one predecessor of an end node contributes.\<close>

definition criterion :: "TaskNode \<Rightarrow> string list" where
  "criterion pred =
     (if node_type pred = PROCESS then [''Completed: '' @ name pred]
      else if node_type pred = HUMAN_REVIEW then [''Human approved: '' @ name pred]
      else [])"

lemma fold_append_concat:
  "fold (\<lambda>x acc. acc @ f x) xs acc = acc @ concat (map f xs)"
  by (induction xs arbitrary: acc) simp_all

lemma fold_criterion:
  "fold (\<lambda>pred criteria.
            if node_type pred = PROCESS then criteria @ [''Completed: '' @ name pred]
            else if node_type pred = HUMAN_REVIEW
            then criteria @ [''Human approved: '' @ name pred]
            else criteria) ps criteria
   = criteria @ concat (map criterion ps)"
proof -
  have "(\<lambda>pred criteria.
            if node_type pred = PROCESS then criteria @ [''Completed: '' @ name pred]
            else if node_type pred = HUMAN_REVIEW
            then criteria @ [''Human approved: '' @ name pred]
            else criteria) = (\<lambda>pred criteria. criteria @ criterion pred)"
    by (intro ext) (simp add: criterion_def)
  then show ?thesis by (simp only: fold_append_concat)
qed

lemma generate_acceptance_criteria_eq:
  "generate_acceptance_criteria g =
     (let criteria = concat (map (\<lambda>end_node. concat (map criterion (get_predecessors g (nid end_node))))
                               (filter (\<lambda>n. node_type n = END) (nodes g)))
      in if criteria = []
         then [''All tasks completed successfully'', ''No critical errors or warnings'']
         else criteria)"
  unfolding generate_acceptance_criteria_def fold_criterion
  by (simp add: fold_append_concat get_end_nodes_def is_end_def cong: filter_cong)

lemma final_acceptance_generate:
  "final_acceptance (generate g fn wt n1 n2) = generate_acceptance_criteria g"
  by (simp add: generate_def Let_def split: prod.splits)

text \<open>
  C7, as the code has it. The final acceptance criteria of the plan are those of
  \<open>_generate_acceptance_criteria\<close>: for every end node in node order and each of its
  predecessors in edge order, a process predecessor gives \<open>Completed: <name>\<close>, a human
  review predecessor gives \<open>Human approved: <name>\<close>, any other predecessor nothing;
  if that list is empty the result is the two generic criteria
  \<open>All tasks completed successfully\<close> and \<open>No critical errors or warnings\<close>.
\<close>

theorem C7_acceptance_criteria:
  "final_acceptance (generate g fn wt n1 n2) = generate_acceptance_criteria g
   \<and> generate_acceptance_criteria g =
     (let criteria = concat (map (\<lambda>end_node. concat (map criterion (get_predecessors g (nid end_node))))
                               (filter (\<lambda>n. node_type n = END) (nodes g)))
      in if criteria = []
         then [''All tasks completed successfully'', ''No critical errors or warnings'']
         else criteria)"
  using final_acceptance_generate generate_acceptance_criteria_eq by blast

text \<open>
  The claim names the generic criteria as \<open>all tasks completed successfully\<close> and
  \<open>no critical errors\<close>. On the graph with no nodes no end node gives a criterion, and
  the list is not that one.
\<close>

theorem C7_generic_criteria_counterexample:
  "generate_acceptance_criteria \<lparr>nodes = [], edges = [], graph_metadata = Map.empty\<rparr>
     \<noteq> [''all tasks completed successfully'', ''no critical errors'']"
  by code_simp

section \<open>Claim C6: the plan for start, Configure database, Write tests, end\<close>

definition plan_graph :: TaskGraph where
  "plan_graph =
     \<lparr>nodes = [mk_node ''start'' ''Start'' START,
               mk_node ''configure-db'' ''Configure database'' PROCESS,
               mk_node ''write-tests'' ''Write tests'' PROCESS,
               mk_node ''end'' ''End'' END],
      edges = [mk_edge ''start'' ''configure-db'' None,
               mk_edge ''configure-db'' ''write-tests'' None,
               mk_edge ''write-tests'' ''end'' None],
      graph_metadata = Map.empty\<rparr>"

text \<open>
  C6. For the chain start, "Configure database", "Write tests", end, whatever the
  feature name, the workflow type and the clock are, \<open>generate\<close> gives exactly two
  phases, numbered 1 and 2: phase 1 has type setup and no \<open>depends_on\<close> entry, phase 2
  has type implementation and \<open>depends_on = [1]\<close>, and the one subtask of phase 2
  carries a verification of type command (the subtask of phase 1 carries none).
\<close>

theorem C6_plan_of_configure_then_test:
  "(let p = generate plan_graph fn wt n1 n2 in
     map phase (phases p) = [1, 2]
     \<and> map phase_type (phases p) = [''setup'', ''implementation'']
     \<and> map depends_on (phases p) = [None, Some [1]]
     \<and> map (map (map_option verification_type \<circ> verification) \<circ> subtasks) (phases p)
         = [[None], [Some ''command'']])"
  by code_simp

section \<open>The structure of the parallel groups\<close>

text \<open>
  The loop that fills \<open>level_groups\<close> keeps one entry per level, with the nodes of that
  level in node order; the result lists the entries by ascending level.
\<close>

definition groups_inv :: "(TaskNode \<Rightarrow> nat) \<Rightarrow> TaskNode list \<Rightarrow> (nat \<times> TaskNode list) list \<Rightarrow> bool" where
  "groups_inv f ns lg \<longleftrightarrow>
     distinct (map fst lg) \<and> set (map fst lg) = f ` set ns
     \<and> (\<forall>l \<in> f ` set ns. map_of lg l = Some (filter (\<lambda>n. f n = l) ns))"

lemma map_of_group_map:
  "map_of (map (\<lambda>(k, ns). if k = level then (k, ns @ [node]) else (k, ns)) lg) l
   = (if l = level then map_option (\<lambda>ns. ns @ [node]) (map_of lg l) else map_of lg l)"
  by (induction lg) auto

lemma fst_group_map:
  "map fst (map (\<lambda>(k, ns). if k = level then (k, ns @ [node]) else (k, ns)) lg) = map fst lg"
  by (induction lg) auto

lemma groups_inv_step:
  assumes "groups_inv f ns lg"
  shows "groups_inv f (ns @ [x]) (group_append (f x) x lg)"
proof (cases "f x \<in> set (map fst lg)")
  case True
  with assms show ?thesis
    unfolding groups_inv_def group_append_def Let_def
    by (simp only: if_False if_True not_not fst_group_map map_of_group_map) auto
next
  case False
  then have none: "map_of lg (f x) = None"
    by (simp add: map_of_eq_None_iff)
  from False assms have "f x \<notin> f ` set ns"
    by (simp add: groups_inv_def)
  then have nx: "filter (\<lambda>n. f n = f x) ns = []"
    unfolding filter_empty_conv by (metis imageI)
  from False assms show ?thesis
    unfolding groups_inv_def group_append_def Let_def
    by (simp only: if_False if_True not_not not_False_eq_True fst_group_map map_of_group_map)
       (auto simp: none nx map_add_def[symmetric] map_add_Some_iff image_iff)
qed

lemma groups_inv_fold:
  assumes "groups_inv f ns lg"
  shows "groups_inv f (ns @ ms) (fold (\<lambda>node level_groups. group_append (f node) node level_groups) ms lg)"
  using assms
proof (induction ms arbitrary: ns lg)
  case Nil
  then show ?case by simp
next
  case (Cons m ms)
  from Cons.IH [OF groups_inv_step [OF Cons.prems, of m]] show ?case by simp
qed

lemma get_parallel_groups_struct:
  "get_parallel_groups g =
     map (\<lambda>l. filter (\<lambda>n. levels_get (calculate_levels g) (nid n) = l) (nodes g))
         (sorted_list_of_set ((\<lambda>n. levels_get (calculate_levels g) (nid n)) ` set (nodes g)))"
proof -
  let ?f = "\<lambda>n. levels_get (calculate_levels g) (nid n)"
  let ?lg = "fold (\<lambda>node level_groups. group_append (?f node) node level_groups) (nodes g) []"
  have "groups_inv ?f [] []" by (simp add: groups_inv_def)
  from groups_inv_fold [OF this, of "nodes g"]
  have inv: "groups_inv ?f (nodes g) ?lg" by simp
  from inv have d: "distinct (map fst ?lg)" and ks: "set (map fst ?lg) = ?f ` set (nodes g)"
    and mo: "\<And>l. l \<in> ?f ` set (nodes g) \<Longrightarrow> map_of ?lg l = Some (filter (\<lambda>n. ?f n = l) (nodes g))"
    unfolding groups_inv_def by blast+
  have "sorted_list_of_set (set (map fst ?lg)) = sort (remdups (map fst ?lg))"
    by (rule sorted_list_of_set_sort_remdups)
  with d ks have keys: "sort (map fst ?lg) = sorted_list_of_set (?f ` set (nodes g))"
    by (simp add: distinct_remdups_id)
  have "map (\<lambda>level. the (map_of ?lg level)) (sorted_list_of_set (?f ` set (nodes g)))
        = map (\<lambda>l. filter (\<lambda>n. ?f n = l) (nodes g)) (sorted_list_of_set (?f ` set (nodes g)))"
  proof (rule map_cong [OF refl])
    fix l assume "l \<in> set (sorted_list_of_set (?f ` set (nodes g)))"
    then have "l \<in> ?f ` set (nodes g)" by simp
    from mo [OF this] show "the (map_of ?lg l) = filter (\<lambda>n. ?f n = l) (nodes g)" by simp
  qed
  with keys show ?thesis
    unfolding get_parallel_groups_def Let_def by (simp only:)
qed

section \<open>Levels on graphs with cycles\<close>

declare calculate_level.simps [simp del]

lemma calculate_level_dom_mono:
  "dom levels \<subseteq> dom (snd (calculate_level g v visited levels))"
  "dom levels \<subseteq> dom (snd (pred_levels g ps visited levels))"
proof (induct g v visited levels and g ps visited levels rule: calculate_level_pred_levels.induct)
  case (1 graph v visited levels)
  show ?case
  proof (cases "levels v = None \<and> v \<notin> visited \<and> get_predecessors graph v \<noteq> []")
    case True
    then have n: "levels v = None" and nv: "v \<notin> visited"
      and ne: "get_predecessors graph v \<noteq> []" by simp_all
    from "1.hyps" [OF n nv refl refl ne]
    have "dom levels \<subseteq> dom (snd (pred_levels graph (get_predecessors graph v) (insert v visited) levels))" .
    with n nv ne show ?thesis
      by (auto simp: calculate_level.simps [of graph v] Let_def split: prod.splits)
  next
    case False
    then show ?thesis
      by (auto simp: calculate_level.simps [of graph v] Let_def split: option.splits)
  qed
next
  case (2 graph visited levels)
  show ?case by simp
next
  case (3 graph pred rest visited levels)
  obtain pl l1 where c: "calculate_level graph (nid pred) visited levels = (pl, l1)"
    by (cases "calculate_level graph (nid pred) visited levels")
  obtain pls l2 where r: "pred_levels graph rest visited l1 = (pls, l2)"
    by (cases "pred_levels graph rest visited l1")
  from "3.hyps"(1) c have "dom levels \<subseteq> dom l1" by simp
  moreover from "3.hyps"(2) [OF c [symmetric]] r have "dom l1 \<subseteq> dom l2" by simp
  ultimately show ?case using c r by simp
qed

lemma calculate_level_in_dom:
  assumes "v \<notin> visited"
  shows "v \<in> dom (snd (calculate_level g v visited levels))"
  using assms by (auto simp: calculate_level.simps [of g v] Let_def split: option.splits prod.splits)

text \<open>
  A node whose incoming edges are all self-loops (and that has at least one): its
  predecessor list is not empty and holds only itself.
\<close>

definition self_loop_only :: "TaskGraph \<Rightarrow> string \<Rightarrow> bool" where
  "self_loop_only g a \<longleftrightarrow>
     get_predecessors g a \<noteq> [] \<and> list_all (\<lambda>p. nid p = a) (get_predecessors g a)"

lemma pred_levels_self:
  assumes "list_all (\<lambda>p. nid p = a) ps" and "a \<in> visited" and "levels a = None"
  shows "pred_levels g ps visited levels = (map (\<lambda>_. 0) ps, levels)"
  using assms by (induction ps) (simp_all add: calculate_level.simps [of g a])

lemma self_loop_ok:
  "self_loop_only g a \<Longrightarrow> levels a = None \<or> levels a = Some 1 \<Longrightarrow>
           snd (calculate_level g v visited levels) a = None
           \<or> snd (calculate_level g v visited levels) a = Some 1"
  "self_loop_only g a \<Longrightarrow> levels a = None \<or> levels a = Some 1 \<Longrightarrow>
           snd (pred_levels g ps visited levels) a = None
           \<or> snd (pred_levels g ps visited levels) a = Some 1"
proof (induct g v visited levels and g ps visited levels rule: calculate_level_pred_levels.induct)
  case (1 graph v visited levels)
  note sl = "1.prems"(1) and ok = "1.prems"(2)
  show ?case
  proof (cases "levels v = None \<and> v \<notin> visited")
    case False
    with ok show ?thesis
      by (auto simp: calculate_level.simps [of graph v] Let_def split: option.splits)
  next
    case True
    then have n: "levels v = None" and nv: "v \<notin> visited" by simp_all
    show ?thesis
    proof (cases "v = a")
      case False
      show ?thesis
      proof (cases "get_predecessors graph v = []")
        case True
        with n nv False ok show ?thesis by (simp add: calculate_level.simps [of graph v] Let_def)
      next
        case ne: False
        obtain pls l1 where r: "pred_levels graph (get_predecessors graph v) (insert v visited) levels = (pls, l1)"
          by (cases "pred_levels graph (get_predecessors graph v) (insert v visited) levels")
        have res: "snd (calculate_level graph v visited levels) = l1(v \<mapsto> Max (set pls) + 1)"
          using n nv ne r by (simp add: calculate_level.simps [of graph v] Let_def)
        from "1.hyps" [OF n nv refl refl ne sl ok] r have "l1 a = None \<or> l1 a = Some 1" by simp
        with False res show ?thesis by simp
      qed
    next
      case True
      from sl have ne: "get_predecessors graph a \<noteq> []"
        and all: "list_all (\<lambda>p. nid p = a) (get_predecessors graph a)"
        by (simp_all add: self_loop_only_def)
      from n True have na: "levels a = None" by simp
      have r: "pred_levels graph (get_predecessors graph a) (insert a visited) levels
                 = (map (\<lambda>_. 0) (get_predecessors graph a), levels)"
        using all _ na by (rule pred_levels_self) simp
      from ne have "set (map (\<lambda>_. 0::nat) (get_predecessors graph a)) = {0}"
        by (cases "get_predecessors graph a") auto
      then have "Max (set (map (\<lambda>_. 0::nat) (get_predecessors graph a))) = 0" by simp
      with n nv ne r True show ?thesis
        by (simp add: calculate_level.simps [of graph a] Let_def)
    qed
  qed
next
  case (2 graph visited levels)
  then show ?case by simp
next
  case (3 graph pred rest visited levels)
  obtain pl l1 where c: "calculate_level graph (nid pred) visited levels = (pl, l1)"
    by (cases "calculate_level graph (nid pred) visited levels")
  obtain pls l2 where r: "pred_levels graph rest visited l1 = (pls, l2)"
    by (cases "pred_levels graph rest visited l1")
  from "3.hyps"(1) [OF "3.prems"] c have "l1 a = None \<or> l1 a = Some 1" by simp
  from "3.hyps"(2) [OF c [symmetric] "3.prems"(1) this] r have "l2 a = None \<or> l2 a = Some 1" by simp
  with c r show ?case by simp
qed

lemma calculate_levels_fold:
  assumes "self_loop_only g a" and "levels a = None \<or> levels a = Some 1"
  shows "(fold (\<lambda>node levels. snd (calculate_level g (nid node) {} levels)) ns levels) a = None
          \<or> (fold (\<lambda>node levels. snd (calculate_level g (nid node) {} levels)) ns levels) a = Some 1"
  using assms(2)
proof (induction ns arbitrary: levels)
  case Nil
  then show ?case by simp
next
  case (Cons n ns)
  from self_loop_ok(1) [where levels = levels and a = a, OF assms(1) Cons.prems]
  have "snd (calculate_level g (nid n) {} levels) a = None
        \<or> snd (calculate_level g (nid n) {} levels) a = Some 1" .
  from Cons.IH [of "snd (calculate_level g (nid n) {} levels)", OF this] show ?case by simp
qed

lemma calculate_levels_fold_dom:
  "dom levels \<union> nid ` set ns
     \<subseteq> dom (fold (\<lambda>node levels. snd (calculate_level g (nid node) {} levels)) ns levels)"
proof (induction ns arbitrary: levels)
  case Nil
  then show ?case by simp
next
  case (Cons n ns)
  let ?l1 = "snd (calculate_level g (nid n) {} levels)"
  have "dom levels \<subseteq> dom ?l1" by (rule calculate_level_dom_mono)
  moreover have "nid n \<in> dom ?l1" by (rule calculate_level_in_dom) simp
  ultimately show ?case using Cons.IH [of ?l1] by auto
qed

lemma dom_calculate_levels: "node_ids g \<subseteq> dom (calculate_levels g)"
  unfolding calculate_levels_def node_ids_def
  using calculate_levels_fold_dom [of Map.empty "nodes g" g] by simp

lemma self_loop_level:
  assumes "self_loop_only g a"
  shows "calculate_levels g a = Some 1"
proof -
  from assms obtain p where "p \<in> set (get_predecessors g a)" "nid p = a"
    by (cases "get_predecessors g a") (auto simp: self_loop_only_def)
  then have "a \<in> node_ids g"
    using get_predecessors_subset [of g a] by (auto simp: node_ids_def)
  with dom_calculate_levels have "a \<in> dom (calculate_levels g)" by blast
  moreover have "calculate_levels g a = None \<or> calculate_levels g a = Some 1"
    unfolding calculate_levels_def by (rule calculate_levels_fold [OF assms]) simp
  ultimately show ?thesis by auto
qed

lemma sorted_list_index_one:
  assumes "finite S" and "(1::nat) \<in> S"
  shows "(if 0 \<in> S then 1 else 0) < length (sorted_list_of_set S)
         \<and> sorted_list_of_set S ! (if 0 \<in> S then 1 else 0) = 1"
proof (cases "0 \<in> S")
  case False
  with assms have "Min S = 1"
    by (intro Min_eqI) (auto simp: Suc_le_eq intro: Suc_leI gr0I)
  moreover from assms have "sorted_list_of_set S = Min S # sorted_list_of_set (S - {Min S})"
    by (intro sorted_list_of_set_nonempty) auto
  ultimately show ?thesis using False by simp
next
  case True
  with assms have m0: "Min S = 0"
    by (intro Min_eqI) auto
  from assms True have l0: "sorted_list_of_set S = 0 # sorted_list_of_set (S - {0})"
    using sorted_list_of_set_nonempty [of S] m0 by auto
  from assms have f: "finite (S - {0})" and i: "1 \<in> S - {0}" by auto
  then have "Min (S - {0}) = 1"
    by (intro Min_eqI) (auto intro: Suc_leI gr0I)
  moreover from f i have "sorted_list_of_set (S - {0}) = Min (S - {0}) # sorted_list_of_set (S - {0} - {Min (S - {0})})"
    by (intro sorted_list_of_set_nonempty) auto
  ultimately show ?thesis using True l0 by simp
qed

text \<open>\<open>levels.get(node.id, 0)\<close> after all levels are computed.\<close>

definition node_level :: "TaskGraph \<Rightarrow> TaskNode \<Rightarrow> nat" where
  "node_level g n = levels_get (calculate_levels g) (nid n)"

lemma get_parallel_groups_by_level:
  "get_parallel_groups g =
     map (\<lambda>l. filter (\<lambda>n. node_level g n = l) (nodes g))
         (sorted_list_of_set (node_level g ` set (nodes g)))"
  unfolding node_level_def by (rule get_parallel_groups_struct)

lemma self_loop_group:
  assumes "self_loop_only g a"
  shows "(if \<exists>n \<in> set (nodes g). node_level g n = 0 then 1 else 0) < length (get_parallel_groups g)
     \<and> get_parallel_groups g ! (if \<exists>n \<in> set (nodes g). node_level g n = 0 then 1 else 0)
         = filter (\<lambda>n. node_level g n = 1) (nodes g)"
proof -
  let ?S = "node_level g ` set (nodes g)"
  let ?k = "if 0 \<in> ?S then 1 else 0 :: nat"
  from assms obtain p where "p \<in> set (get_predecessors g a)" "nid p = a"
    by (cases "get_predecessors g a") (auto simp: self_loop_only_def)
  then have "p \<in> set (nodes g)" "nid p = a"
    using get_predecessors_subset [of g a] by auto
  moreover from self_loop_level [OF assms] have "levels_get (calculate_levels g) a = 1"
    by (simp add: levels_get_def)
  ultimately have "1 \<in> ?S"
    by (auto simp: node_level_def image_iff intro!: bexI [of _ p])
  with sorted_list_index_one [of ?S]
  have k: "?k < length (sorted_list_of_set ?S)" "sorted_list_of_set ?S ! ?k = 1" by auto
  have eq: "(\<exists>n \<in> set (nodes g). node_level g n = 0) \<longleftrightarrow> 0 \<in> ?S" by (auto simp: image_iff)
  from k show ?thesis
    unfolding eq get_parallel_groups_by_level by simp
qed

section \<open>Claim C5: levels on cyclic graphs\<close>

definition self_loop_graph :: TaskGraph where
  "self_loop_graph =
     \<lparr>nodes = [mk_node ''s'' ''Start'' START, mk_node ''a'' ''Retry upload'' PROCESS],
      edges = [mk_edge ''a'' ''a'' None],
      graph_metadata = Map.empty\<rparr>"

definition retry_graph :: TaskGraph where
  "retry_graph =
     \<lparr>nodes = [mk_node ''s'' ''Start'' START, mk_node ''a'' ''Prepare upload'' PROCESS,
               mk_node ''b'' ''Retry upload'' PROCESS],
      edges = [mk_edge ''s'' ''a'' None, mk_edge ''a'' ''b'' None, mk_edge ''s'' ''b'' None,
               mk_edge ''b'' ''b'' None],
      graph_metadata = Map.empty\<rparr>"

lemma calculate_level_memo:
  "levels v = Some l \<longrightarrow> calculate_level g v visited levels = (l, levels)"
  by (simp add: calculate_level.simps [of g v])

lemma calculate_level_reentrant:
  "levels v = None \<and> v \<in> visited \<longrightarrow> calculate_level g v visited levels = (0, levels)"
  by (simp add: calculate_level.simps [of g v])

lemma calculate_level_source:
  "levels v = None \<and> v \<notin> visited \<and> get_predecessors g v = [] \<longrightarrow>
     calculate_level g v visited levels = (0, levels(v \<mapsto> 0))"
  by (simp add: calculate_level.simps [of g v] Let_def)

lemma calculate_level_max:
  "levels v = None \<and> v \<notin> visited \<and> get_predecessors g v \<noteq> [] \<longrightarrow>
     calculate_level g v visited levels =
       (Max (set (fst (pred_levels g (get_predecessors g v) (insert v visited) levels))) + 1,
        (snd (pred_levels g (get_predecessors g v) (insert v visited) levels))
          (v \<mapsto> Max (set (fst (pred_levels g (get_predecessors g v) (insert v visited) levels))) + 1))"
  by (simp add: calculate_level.simps [of g v] Let_def split: prod.splits)

lemma pred_levels_cons:
  "pred_levels g (p # ps) visited levels =
     (fst (calculate_level g (nid p) visited levels)
        # fst (pred_levels g ps visited (snd (calculate_level g (nid p) visited levels))),
      snd (pred_levels g ps visited (snd (calculate_level g (nid p) visited levels))))"
  by (simp split: prod.splits)

lemma retry_graph_groups:
  "map (map nid) (get_parallel_groups retry_graph) = [[''s''], [''a''], [''b'']]"
  by code_simp

text \<open>
  C5, as the code has it. \<open>calculate_level\<close> and \<open>get_parallel_groups\<close> are total: the
  recursion is well-founded on every graph, cyclic or not (the recursion limit of the
  interpreter is no part of the model), and the groups are the nodes grouped by their
  level, in ascending order of the levels that occur. A call on a node with a recorded
  level returns it. A call on a node without a recorded level that is already on the
  current recursion path returns 0 and records nothing. Any other call records and
  returns 0 for a node without predecessors, and otherwise one more than the maximum of
  the values that the calls on its predecessors return, taken from left to right with
  the node added to the path. So a node whose only incoming edges are self-loops gets
  level 1, not 0, and stands in the group of level 1, which is the second group when
  some node has level 0 and the first group otherwise. In \<open>retry_graph\<close> the node b
  has the predecessors a (level 1), s (level 0) and itself (0 on re-entry): its level
  is 2.
\<close>

theorem C5_levels_on_cyclic_graphs:
  "get_parallel_groups g =
     map (\<lambda>l. filter (\<lambda>n. node_level g n = l) (nodes g))
         (sorted_list_of_set (node_level g ` set (nodes g)))
   \<and> (levels v = Some l \<longrightarrow> calculate_level g v visited levels = (l, levels))
   \<and> (levels v = None \<and> v \<in> visited \<longrightarrow> calculate_level g v visited levels = (0, levels))
   \<and> (levels v = None \<and> v \<notin> visited \<and> get_predecessors g v = [] \<longrightarrow>
        calculate_level g v visited levels = (0, levels(v \<mapsto> 0)))
   \<and> (levels v = None \<and> v \<notin> visited \<and> get_predecessors g v \<noteq> [] \<longrightarrow>
        calculate_level g v visited levels =
          (Max (set (fst (pred_levels g (get_predecessors g v) (insert v visited) levels))) + 1,
           (snd (pred_levels g (get_predecessors g v) (insert v visited) levels))
             (v \<mapsto> Max (set (fst (pred_levels g (get_predecessors g v) (insert v visited) levels))) + 1)))
   \<and> pred_levels g [] visited levels = ([], levels)
   \<and> pred_levels g (p # ps) visited levels =
        (fst (calculate_level g (nid p) visited levels)
           # fst (pred_levels g ps visited (snd (calculate_level g (nid p) visited levels))),
         snd (pred_levels g ps visited (snd (calculate_level g (nid p) visited levels))))
   \<and> (self_loop_only g a \<longrightarrow>
        calculate_levels g a = Some 1
        \<and> (if \<exists>n \<in> set (nodes g). node_level g n = 0 then 1 else 0) < length (get_parallel_groups g)
        \<and> get_parallel_groups g ! (if \<exists>n \<in> set (nodes g). node_level g n = 0 then 1 else 0)
            = filter (\<lambda>n. node_level g n = 1) (nodes g))
   \<and> map (map nid) (get_parallel_groups retry_graph) = [[''s''], [''a''], [''b'']]"
proof -
  have sl: "self_loop_only g a \<longrightarrow>
        calculate_levels g a = Some 1
        \<and> (if \<exists>n \<in> set (nodes g). node_level g n = 0 then 1 else 0) < length (get_parallel_groups g)
        \<and> get_parallel_groups g ! (if \<exists>n \<in> set (nodes g). node_level g n = 0 then 1 else 0)
            = filter (\<lambda>n. node_level g n = 1) (nodes g)"
    using self_loop_group [of g a] self_loop_level [of g a] by blast
  have nil: "pred_levels g [] visited levels = ([], levels)" by simp
  from get_parallel_groups_by_level [of g] calculate_level_memo calculate_level_reentrant
    calculate_level_source calculate_level_max nil pred_levels_cons sl retry_graph_groups
  show ?thesis by (intro conjI)
qed

theorem C5_self_loop_witness:
  "self_loop_only self_loop_graph ''a''
   \<and> calculate_levels self_loop_graph ''a'' = Some 1
   \<and> map (map nid) (get_parallel_groups self_loop_graph) = [[''s''], [''a'']]"
proof -
  have h: "self_loop_only self_loop_graph ''a''" by code_simp
  have g: "map (map nid) (get_parallel_groups self_loop_graph) = [[''s''], [''a'']]" by code_simp
  note c = C5_levels_on_cyclic_graphs [where g = self_loop_graph and a = "''a''"]
  note sl = c [THEN conjunct2, THEN conjunct2, THEN conjunct2, THEN conjunct2,
               THEN conjunct2, THEN conjunct2, THEN conjunct2, THEN conjunct1]
  from sl h have "calculate_levels self_loop_graph ''a'' = Some 1"
    by (rule mp [THEN conjunct1])
  with h g show ?thesis by (intro conjI)
qed

text \<open>
  The claim says that such a node has level 0 and stands in the first group. In the
  graph with a start node s and a node a whose only edge is its self-loop, a has
  level 1 and stands in the second group.
\<close>

theorem C5_self_loop_counterexample:
  "map nid (get_predecessors self_loop_graph ''a'') = [''a'']
   \<and> levels_get (calculate_levels self_loop_graph) ''a'' = 1
   \<and> map (map nid) (get_parallel_groups self_loop_graph) = [[''s''], [''a'']]"
  by code_simp

section \<open>Levels on acyclic graphs\<close>

text \<open>
  The edges between nodes of the graph, as pairs of ids: a graph is acyclic when this
  relation is. \<open>pred_rel\<close> is the relation that \<open>get_predecessors\<close> reads: the source
  is a node of the graph, the target is any id.
\<close>

definition edge_rel :: "TaskGraph \<Rightarrow> (string \<times> string) set" where
  "edge_rel g =
     set (map (\<lambda>e. (source_id e, target_id e))
            (filter (\<lambda>e. source_id e \<in> node_ids g \<and> target_id e \<in> node_ids g) (edges g)))"

definition pred_rel :: "TaskGraph \<Rightarrow> (string \<times> string) set" where
  "pred_rel g = {(u, v). u \<in> nid ` set (get_predecessors g v)}"

text \<open>
  \<open>has_path g v k\<close>: there is a path of \<open>k\<close> edges from a node without predecessors
  to \<open>v\<close>. \<open>longest_path g v\<close> is the length of the longest one.
\<close>

inductive has_path :: "TaskGraph \<Rightarrow> string \<Rightarrow> nat \<Rightarrow> bool" for g where
  source: "get_predecessors g v = [] \<Longrightarrow> has_path g v 0"
| step: "p \<in> set (get_predecessors g v) \<Longrightarrow> has_path g (nid p) k \<Longrightarrow> has_path g v (Suc k)"

definition longest_path :: "TaskGraph \<Rightarrow> string \<Rightarrow> nat" where
  "longest_path g v = Max {k. has_path g v k}"

lemma pred_ids:
  "nid ` set (get_predecessors g v)
     = {source_id e | e. e \<in> set (edges g) \<and> target_id e = v \<and> source_id e \<in> node_ids g}"
proof -
  have "nid ` set (get_predecessors g v) = set (map nid (get_predecessors g v))" by simp
  also have "\<dots> = {source_id e | e. e \<in> set (edges g) \<and> target_id e = v \<and> source_id e \<in> node_ids g}"
    unfolding nid_get_predecessors get_incoming_edges_def by auto
  finally show ?thesis .
qed

lemma pred_rel_eq:
  "pred_rel g = {(source_id e, target_id e) | e. e \<in> set (edges g) \<and> source_id e \<in> node_ids g}"
  unfolding pred_rel_def pred_ids by auto

lemma finite_pred_rel: "finite (pred_rel g)"
proof -
  have "pred_rel g \<subseteq> (\<lambda>e. (source_id e, target_id e)) ` set (edges g)"
    unfolding pred_rel_eq by auto
  then show ?thesis by (rule finite_subset) simp
qed

lemma edge_rel_eq:
  "edge_rel g = {(u, v). (u, v) \<in> pred_rel g \<and> v \<in> node_ids g}"
  unfolding edge_rel_def pred_rel_eq by auto

lemma pred_rel_source: "(u, v) \<in> pred_rel g \<Longrightarrow> u \<in> node_ids g"
  unfolding pred_rel_eq by auto

lemma pred_trancl_edge_trancl:
  assumes "(x, y) \<in> (pred_rel g)\<^sup>+" and "y \<in> node_ids g"
  shows "(x, y) \<in> (edge_rel g)\<^sup>+"
  using assms
proof (induction rule: trancl_induct)
  case (base y)
  then show ?case by (auto simp: edge_rel_eq)
next
  case (step y z)
  from step.hyps(2) have "y \<in> node_ids g" by (rule pred_rel_source)
  from step.IH [OF this] have "(x, y) \<in> (edge_rel g)\<^sup>+" .
  moreover from step.hyps(2) step.prems have "(y, z) \<in> edge_rel g" by (simp add: edge_rel_eq)
  ultimately show ?case by (rule trancl_into_trancl)
qed

lemma acyclic_pred_rel:
  assumes "acyclic (edge_rel g)"
  shows "acyclic (pred_rel g)"
proof (rule acyclicI, rule allI, rule notI)
  fix x assume xx: "(x, x) \<in> (pred_rel g)\<^sup>+"
  then obtain z where "(x, z) \<in> pred_rel g" by (meson tranclD)
  then have "x \<in> node_ids g" by (rule pred_rel_source)
  with xx have "(x, x) \<in> (edge_rel g)\<^sup>+" by (rule pred_trancl_edge_trancl)
  with assms show False by (simp add: acyclic_def)
qed

lemma wf_pred_rel:
  assumes "acyclic (edge_rel g)"
  shows "wf (pred_rel g)"
  using finite_pred_rel acyclic_pred_rel [OF assms] by (rule finite_acyclic_wf)

lemma has_path_set:
  "{k. has_path g v k} =
     (if get_predecessors g v = [] then {0}
      else Suc ` (\<Union>p \<in> set (get_predecessors g v). {k. has_path g (nid p) k}))"
proof (cases "get_predecessors g v = []")
  case True
  then show ?thesis
    by (auto intro: has_path.source elim: has_path.cases)
next
  case False
  have "has_path g v k \<longleftrightarrow> k \<in> Suc ` (\<Union>p \<in> set (get_predecessors g v). {k. has_path g (nid p) k})" for k
  proof
    assume "has_path g v k"
    then show "k \<in> Suc ` (\<Union>p \<in> set (get_predecessors g v). {k. has_path g (nid p) k})"
      using False by (cases rule: has_path.cases) auto
  next
    assume "k \<in> Suc ` (\<Union>p \<in> set (get_predecessors g v). {k. has_path g (nid p) k})"
    then show "has_path g v k" by (auto intro: has_path.step)
  qed
  with False show ?thesis by auto
qed

lemma has_path_finite_nonempty:
  assumes "wf (pred_rel g)"
  shows "finite {k. has_path g v k} \<and> {k. has_path g v k} \<noteq> {}"
  using assms
proof (induction v rule: wf_induct_rule)
  case (less v)
  show ?case
  proof (cases "get_predecessors g v = []")
    case True
    then show ?thesis by (simp add: has_path_set [of g v])
  next
    case False
    have ih: "finite {k. has_path g (nid p) k} \<and> {k. has_path g (nid p) k} \<noteq> {}"
      if "p \<in> set (get_predecessors g v)" for p
      using that by (intro less.IH) (auto simp: pred_rel_def)
    from False obtain p where p: "p \<in> set (get_predecessors g v)"
      by (cases "get_predecessors g v") auto
    have "finite (\<Union>p \<in> set (get_predecessors g v). {k. has_path g (nid p) k})"
      using ih by auto
    moreover have "(\<Union>p \<in> set (get_predecessors g v). {k. has_path g (nid p) k}) \<noteq> {}"
      using ih [OF p] p by blast
    ultimately show ?thesis using False by (simp add: has_path_set [of g v])
  qed
qed

lemma longest_path_rec:
  assumes "wf (pred_rel g)"
  shows "longest_path g v =
     (if get_predecessors g v = [] then 0
      else Max (longest_path g ` nid ` set (get_predecessors g v)) + 1)"
proof (cases "get_predecessors g v = []")
  case True
  then show ?thesis by (simp add: longest_path_def has_path_set [of g v])
next
  case False
  let ?ps = "set (get_predecessors g v)"
  let ?U = "\<Union>p \<in> ?ps. {k. has_path g (nid p) k}"
  note fn = has_path_finite_nonempty [OF assms]
  from False obtain p0 where p0: "p0 \<in> ?ps" by (cases "get_predecessors g v") auto
  have finU: "finite ?U" using fn by auto
  have neU: "?U \<noteq> {}" using fn [of "nid p0"] p0 by blast
  have "Max ?U = Max (longest_path g ` nid ` ?ps)"
  proof (rule Max_eqI [OF finU])
    fix k assume "k \<in> ?U"
    then obtain p where p: "p \<in> ?ps" and k: "has_path g (nid p) k" by blast
    from k fn [of "nid p"] have "k \<le> longest_path g (nid p)"
      by (simp add: longest_path_def)
    also from p have "\<dots> \<le> Max (longest_path g ` nid ` ?ps)" by (intro Max_ge) auto
    finally show "k \<le> Max (longest_path g ` nid ` ?ps)" .
  next
    have "Max (longest_path g ` nid ` ?ps) \<in> longest_path g ` nid ` ?ps"
      using p0 by (intro Max_in) auto
    then obtain p where p: "p \<in> ?ps" and m: "Max (longest_path g ` nid ` ?ps) = longest_path g (nid p)"
      by auto
    from fn [of "nid p"] have "longest_path g (nid p) \<in> {k. has_path g (nid p) k}"
      unfolding longest_path_def by (intro Max_in) auto
    with p m show "Max (longest_path g ` nid ` ?ps) \<in> ?U" by auto
  qed
  moreover have "Max (Suc ` ?U) = Suc (Max ?U)"
    using finU neU by (simp add: mono_Max_commute [symmetric] mono_Suc)
  ultimately show ?thesis using False by (simp add: longest_path_def has_path_set [of g v])
qed

definition levels_ok :: "TaskGraph \<Rightarrow> (string \<rightharpoonup> nat) \<Rightarrow> bool" where
  "levels_ok g levels \<longleftrightarrow> (\<forall>u l. levels u = Some l \<longrightarrow> l = longest_path g u)"

lemma levels_ok_upd:
  "levels_ok g levels \<Longrightarrow> l = longest_path g v \<Longrightarrow> levels_ok g (levels(v \<mapsto> l))"
  by (simp add: levels_ok_def)

lemma calculate_level_correct:
  "wf (pred_rel g) \<Longrightarrow> levels_ok g levels \<Longrightarrow>
     (\<forall>u. (u, v) \<in> (pred_rel g)\<^sup>* \<longrightarrow> u \<notin> visited) \<Longrightarrow>
     fst (calculate_level g v visited levels) = longest_path g v
     \<and> levels_ok g (snd (calculate_level g v visited levels))"
  "wf (pred_rel g) \<Longrightarrow> levels_ok g levels \<Longrightarrow>
     (\<forall>p \<in> set ps. \<forall>u. (u, nid p) \<in> (pred_rel g)\<^sup>* \<longrightarrow> u \<notin> visited) \<Longrightarrow>
     fst (pred_levels g ps visited levels) = map (\<lambda>p. longest_path g (nid p)) ps
     \<and> levels_ok g (snd (pred_levels g ps visited levels))"
proof (induct g v visited levels and g ps visited levels rule: calculate_level_pred_levels.induct)
  case (1 graph v visited levels)
  note wf = "1.prems"(1) and ok = "1.prems"(2) and vis = "1.prems"(3)
  show ?case
  proof (cases "levels v")
    case (Some l)
    with ok have "l = longest_path graph v" by (simp add: levels_ok_def)
    with Some ok show ?thesis by (simp add: calculate_level.simps [of graph v])
  next
    case None
    from vis have nv: "v \<notin> visited" by blast
    show ?thesis
    proof (cases "get_predecessors graph v = []")
      case True
      with longest_path_rec [OF wf, of v] have l0: "0 = longest_path graph v" by simp
      have res: "calculate_level graph v visited levels = (0, levels(v \<mapsto> 0))"
        using None nv True by (simp add: calculate_level.simps [of graph v] Let_def)
      from levels_ok_upd [OF ok l0] l0 show ?thesis
        unfolding res fst_conv snd_conv by (intro conjI) assumption+
    next
      case ne: False
      let ?ps = "get_predecessors graph v"
      have pre: "\<forall>p \<in> set ?ps. \<forall>u. (u, nid p) \<in> (pred_rel graph)\<^sup>* \<longrightarrow> u \<notin> insert v visited"
      proof (intro ballI allI impI)
        fix p u assume p: "p \<in> set ?ps" and u: "(u, nid p) \<in> (pred_rel graph)\<^sup>*"
        from p have e: "(nid p, v) \<in> pred_rel graph" by (auto simp: pred_rel_def)
        with u have "(u, v) \<in> (pred_rel graph)\<^sup>*" by (rule rtrancl_into_rtrancl)
        with vis have "u \<notin> visited" by blast
        moreover have "u \<noteq> v"
        proof
          assume "u = v"
          with u e have "(v, v) \<in> (pred_rel graph)\<^sup>+" by (simp add: rtrancl_into_trancl1)
          with wf show False using wf_acyclic [of "pred_rel graph"] by (simp add: acyclic_def)
        qed
        ultimately show "u \<notin> insert v visited" by simp
      qed
      obtain pls l1 where r: "pred_levels graph ?ps (insert v visited) levels = (pls, l1)"
        by (cases "pred_levels graph ?ps (insert v visited) levels")
      from "1.hyps" [OF None nv refl refl ne wf ok pre] r
      have pls: "pls = map (\<lambda>p. longest_path graph (nid p)) ?ps" and ok1: "levels_ok graph l1"
        by simp_all
      from pls have "set pls = longest_path graph ` nid ` set ?ps" by (simp add: image_image)
      with longest_path_rec [OF wf, of v] ne
      have lv: "Max (set pls) + 1 = longest_path graph v" by simp
      have res: "calculate_level graph v visited levels
                   = (Max (set pls) + 1, l1(v \<mapsto> Max (set pls) + 1))"
        using None nv ne r by (simp add: calculate_level.simps [of graph v] Let_def)
      from levels_ok_upd [OF ok1 lv] lv show ?thesis
        unfolding res fst_conv snd_conv by (intro conjI) assumption+
    qed
  qed
next
  case (2 graph visited levels)
  then show ?case by simp
next
  case (3 graph pred rest visited levels)
  note wf = "3.prems"(1) and ok = "3.prems"(2) and vis = "3.prems"(3)
  obtain pl l1 where c: "calculate_level graph (nid pred) visited levels = (pl, l1)"
    by (cases "calculate_level graph (nid pred) visited levels")
  obtain pls l2 where r: "pred_levels graph rest visited l1 = (pls, l2)"
    by (cases "pred_levels graph rest visited l1")
  from vis have v1: "\<forall>u. (u, nid pred) \<in> (pred_rel graph)\<^sup>* \<longrightarrow> u \<notin> visited"
    and v2: "\<forall>p \<in> set rest. \<forall>u. (u, nid p) \<in> (pred_rel graph)\<^sup>* \<longrightarrow> u \<notin> visited"
    by simp_all
  from "3.hyps"(1) [OF wf ok v1] c
  have pl: "pl = longest_path graph (nid pred)" and ok1: "levels_ok graph l1" by simp_all
  from "3.hyps"(2) [OF c [symmetric] wf ok1 v2] r
  have "pls = map (\<lambda>p. longest_path graph (nid p)) rest" and "levels_ok graph l2" by simp_all
  with pl c r show ?case by simp
qed

lemma calculate_levels_ok_fold:
  assumes "wf (pred_rel g)" and "levels_ok g levels"
  shows "levels_ok g (fold (\<lambda>node levels. snd (calculate_level g (nid node) {} levels)) ns levels)"
  using assms(2)
proof (induction ns arbitrary: levels)
  case Nil
  then show ?case by simp
next
  case (Cons n ns)
  have "levels_ok g (snd (calculate_level g (nid n) {} levels))"
    using calculate_level_correct(1) [OF assms(1) Cons.prems, of "nid n" "{}"] by simp
  from Cons.IH [OF this] show ?case by simp
qed

lemma node_level_longest_path:
  assumes "acyclic (edge_rel g)" and "n \<in> set (nodes g)"
  shows "node_level g n = longest_path g (nid n)"
proof -
  have "levels_ok g Map.empty" by (simp add: levels_ok_def)
  with wf_pred_rel [OF assms(1)] have ok: "levels_ok g (calculate_levels g)"
    unfolding calculate_levels_def by (rule calculate_levels_ok_fold)
  from assms(2) have "nid n \<in> node_ids g" by (simp add: node_ids_def)
  with dom_calculate_levels obtain l where "calculate_levels g (nid n) = Some l" by blast
  with ok show ?thesis by (simp add: node_level_def levels_get_def levels_ok_def)
qed

lemma downward_closed_sorted_list:
  assumes fin: "finite (S :: nat set)" and down: "\<And>k. Suc k \<in> S \<Longrightarrow> k \<in> S"
  shows "sorted_list_of_set S = [0..<card S]"
proof (cases "S = {}")
  case True
  then show ?thesis by simp
next
  case False
  define m where "m = Max S"
  from fin False have mS: "m \<in> S" unfolding m_def by (rule Max_in)
  have "k \<in> S" if "k \<le> m" for k
    using that
  proof (induction rule: inc_induct)
    case base
    show ?case by (rule mS)
  next
    case (step n)
    from step.IH show ?case by (rule down)
  qed
  moreover have "k \<le> m" if "k \<in> S" for k
    unfolding m_def using fin that by (rule Max_ge)
  ultimately have S: "S = {0..<Suc m}" by (auto simp: less_Suc_eq_le)
  have "sorted_list_of_set {0..<Suc m} = [0..<card {0..<Suc m}]"
    by (simp only: sorted_list_of_set_range card_atLeastLessThan diff_zero)
  then show ?thesis by (simp only: S [symmetric])
qed

lemma longest_path_pred_level:
  assumes ac: "acyclic (edge_rel g)" and k: "longest_path g v = Suc k"
  shows "\<exists>m \<in> set (nodes g). longest_path g (nid m) = k"
proof -
  note rec = longest_path_rec [OF wf_pred_rel [OF ac], of v]
  from rec k have ne: "get_predecessors g v \<noteq> []"
    by (auto split: if_splits)
  with rec k have mx: "Max (longest_path g ` nid ` set (get_predecessors g v)) = k" by simp
  from ne have "Max (longest_path g ` nid ` set (get_predecessors g v))
                  \<in> longest_path g ` nid ` set (get_predecessors g v)"
    by (intro Max_in) auto
  with mx obtain p where "p \<in> set (get_predecessors g v)" "longest_path g (nid p) = k"
    by auto
  with get_predecessors_subset [of g v] show ?thesis by blast
qed

lemma parallel_groups_acyclic:
  assumes ac: "acyclic (edge_rel g)"
  shows "get_parallel_groups g =
     map (\<lambda>k. filter (\<lambda>n. longest_path g (nid n) = k) (nodes g))
         [0..<card ((\<lambda>n. longest_path g (nid n)) ` set (nodes g))]"
proof -
  let ?L = "\<lambda>n. longest_path g (nid n)"
  have lv: "node_level g n = ?L n" if "n \<in> set (nodes g)" for n
    using ac that by (rule node_level_longest_path)
  then have img: "node_level g ` set (nodes g) = ?L ` set (nodes g)"
    by (intro image_cong) auto
  have flt: "filter (\<lambda>n. node_level g n = l) (nodes g) = filter (\<lambda>n. ?L n = l) (nodes g)" for l
    using lv by (intro filter_cong) auto
  have "k \<in> ?L ` set (nodes g)" if "Suc k \<in> ?L ` set (nodes g)" for k
  proof -
    from that obtain n :: TaskNode where "Suc k = longest_path g (nid n)" by (rule imageE)
    then have "longest_path g (nid n) = Suc k" by (rule sym)
    from longest_path_pred_level [OF ac this] obtain m where
      "m \<in> set (nodes g)" "longest_path g (nid m) = k" by blast
    then show ?thesis by (intro image_eqI [of _ _ m]) simp_all
  qed
  then have "sorted_list_of_set (?L ` set (nodes g)) = [0..<card (?L ` set (nodes g))]"
    by (intro downward_closed_sorted_list) auto
  then show ?thesis
    by (simp only: get_parallel_groups_by_level img flt)
qed

section \<open>Claim C4: the parallel groups of an acyclic graph\<close>

definition chain_graph :: TaskGraph where
  "chain_graph =
     \<lparr>nodes = [mk_node ''start'' ''Start'' START, mk_node ''A'' ''Step A'' PROCESS,
               mk_node ''B'' ''Step B'' PROCESS, mk_node ''end'' ''End'' END],
      edges = [mk_edge ''start'' ''A'' None, mk_edge ''A'' ''B'' None, mk_edge ''B'' ''end'' None],
      graph_metadata = Map.empty\<rparr>"

definition diamond_graph :: TaskGraph where
  "diamond_graph =
     \<lparr>nodes = [mk_node ''start'' ''Start'' START, mk_node ''A'' ''Step A'' PROCESS,
               mk_node ''B'' ''Step B'' PROCESS, mk_node ''end'' ''End'' END],
      edges = [mk_edge ''start'' ''A'' None, mk_edge ''start'' ''B'' None,
               mk_edge ''A'' ''end'' None, mk_edge ''B'' ''end'' None],
      graph_metadata = Map.empty\<rparr>"

text \<open>
  C4. On every graph without a cycle among its nodes, \<open>get_parallel_groups\<close> returns
  one group for each level 0, 1, ... that occurs, in this order, and group \<open>k\<close> holds
  exactly the nodes (in node order) whose longest path from a node without predecessors
  has \<open>k\<close> edges. That length is 0 for a node without predecessors and otherwise one
  more than the maximum over its predecessors. The chain start, A, B, end gives four
  groups of one node each, in this order; in the diamond A and B share the second group.
\<close>

theorem C4_parallel_groups_are_longest_path_levels:
  assumes "acyclic (edge_rel g)"
  shows "get_parallel_groups g =
           map (\<lambda>k. filter (\<lambda>n. longest_path g (nid n) = k) (nodes g))
               [0..<card ((\<lambda>n. longest_path g (nid n)) ` set (nodes g))]
         \<and> longest_path g v =
             (if get_predecessors g v = [] then 0
              else Max (longest_path g ` nid ` set (get_predecessors g v)) + 1)
         \<and> map (map nid) (get_parallel_groups chain_graph)
             = [[''start''], [''A''], [''B''], [''end'']]
         \<and> map (map nid) (get_parallel_groups diamond_graph)
             = [[''start''], [''A'', ''B''], [''end'']]"
proof -
  have "map (map nid) (get_parallel_groups chain_graph) = [[''start''], [''A''], [''B''], [''end'']]"
    by code_simp
  moreover have "map (map nid) (get_parallel_groups diamond_graph) = [[''start''], [''A'', ''B''], [''end'']]"
    by code_simp
  moreover note parallel_groups_acyclic [OF assms] longest_path_rec [OF wf_pred_rel [OF assms], of v]
  ultimately show ?thesis
    by (intro conjI)
qed

theorem C4_diamond_witness:
  "acyclic (edge_rel diamond_graph)
   \<and> get_parallel_groups diamond_graph =
       map (\<lambda>k. filter (\<lambda>n. longest_path diamond_graph (nid n) = k) (nodes diamond_graph))
           [0..<card ((\<lambda>n. longest_path diamond_graph (nid n)) ` set (nodes diamond_graph))]
   \<and> map (map nid) (get_parallel_groups diamond_graph) = [[''start''], [''A'', ''B''], [''end'']]"
proof -
  have h: "acyclic (edge_rel diamond_graph)" by code_simp
  note c = C4_parallel_groups_are_longest_path_levels [OF h, of "''start''"]
  from c have a: "get_parallel_groups diamond_graph =
       map (\<lambda>k. filter (\<lambda>n. longest_path diamond_graph (nid n) = k) (nodes diamond_graph))
           [0..<card ((\<lambda>n. longest_path diamond_graph (nid n)) ` set (nodes diamond_graph))]"
    by (rule conjunct1)
  from c have d: "map (map nid) (get_parallel_groups diamond_graph) = [[''start''], [''A'', ''B''], [''end'']]"
    by (elim conjE)
  from h a d show ?thesis by (intro conjI)
qed

section \<open>Topological sort (flowchart/ir.py)\<close>











subsection \<open>The loop over the successors\<close>





subsection \<open>Unresolved predecessors\<close>













subsection \<open>The invariant of the main loop\<close>








subsection \<open>The nodes that can be placed\<close>
















section \<open>Claims C1 and C3: the order returned, and the failure on cycles\<close>













end
